theory Spec2Isabelle
  imports Main "HOL-Library.Word" "HOL-Library.Signed_Division"
begin

unbundle bit_operations_syntax

section \<open>Machine types\<close>

text \<open>
  A shallow embedding of the sketch \<open>marble_fx.ino\<close>: the ring buffer, the receiver
  interrupt routine, the bounded byte read, the timer, and the part of \<open>loop\<close> that
  decodes and translates one report.  The older revision of the sketch has the same
  receiver, ring buffer, decoder and button mapping.

  The firmware runs on an 8-bit AVR: \<open>uint8_t\<close> and \<open>int8_t\<close> are 8-bit words
  (\<open>int8_t\<close> read through \<open>sint\<close>), \<open>unsigned long\<close> is a 32-bit word.
\<close>

type_synonym u8 = "8 word"
type_synonym i8 = "8 word"
type_synonym u32 = "32 word"

section \<open>The ring buffer \<open>Mousebuffer\<close>\<close>

text \<open>
  \<open>class Mousebuffer\<close>: \<open>uint8_t buf[MBUF_SIZE]\<close>, \<open>head\<close> and \<open>tail\<close>.
  Both indices are only ever assigned values reduced modulo \<open>MBUF_SIZE\<close>, so they
  are modelled as naturals with the reduction written out (256 is a multiple of 16, so
  the 8-bit wrap of \<open>tail++\<close> never shows).  The critical sections
  (\<open>cli()\<close> / restoring \<open>SREG\<close>) make every operation atomic, which is what a
  function on the state is.
\<close>

definition MBUF_SIZE :: nat where
  "MBUF_SIZE = 16"

record Mousebuffer =
  buf :: "u8 list"
  head :: nat
  tail :: nat

text \<open>The global object \<open>mbuf\<close>: zero-initialised storage, the constructor sets both indices to 0.\<close>

definition mbuf_init :: Mousebuffer where
  "mbuf_init = \<lparr> buf = replicate MBUF_SIZE 0, head = 0, tail = 0 \<rparr>"

definition mbuf_push :: "u8 \<Rightarrow> Mousebuffer \<Rightarrow> Mousebuffer" where
  "mbuf_push d m =
     (let next = (head m + 1) mod MBUF_SIZE in
      if next \<noteq> tail m then m\<lparr> buf := (buf m)[head m := d], head := next \<rparr>
      else m)"

definition mbuf_pull :: "Mousebuffer \<Rightarrow> u8 \<times> Mousebuffer" where
  "mbuf_pull m =
     (if head m \<noteq> tail m
      then (buf m ! tail m, m\<lparr> tail := (tail m + 1) mod MBUF_SIZE \<rparr>)
      else (0, m))"

definition mbuf_empty :: "Mousebuffer \<Rightarrow> bool" where
  "mbuf_empty m = (head m = tail m)"

definition mbuf_reset :: "Mousebuffer \<Rightarrow> Mousebuffer" where
  "mbuf_reset m = m\<lparr> head := 0, tail := 0 \<rparr>"

text \<open>Several pushes in a row, and \<open>n\<close> pulls in a row collecting the returned bytes.\<close>

fun pushes :: "u8 list \<Rightarrow> Mousebuffer \<Rightarrow> Mousebuffer" where
  "pushes [] m = m"
| "pushes (x # xs) m = pushes xs (mbuf_push x m)"

fun pulls :: "nat \<Rightarrow> Mousebuffer \<Rightarrow> u8 list \<times> Mousebuffer" where
  "pulls 0 m = ([], m)"
| "pulls (Suc n) m =
     (case mbuf_pull m of (x, m') \<Rightarrow>
        (case pulls n m' of (xs, m'') \<Rightarrow> (x # xs, m'')))"

text \<open>
  The bytes a buffer holds, oldest first: the slots from \<open>tail\<close> up to \<open>head\<close>,
  around the ring.  \<open>mbuf_wf\<close> is the shape every reachable buffer has.
\<close>

definition mbuf_count :: "Mousebuffer \<Rightarrow> nat" where
  "mbuf_count m = (head m + MBUF_SIZE - tail m) mod MBUF_SIZE"

definition mbuf_contents :: "Mousebuffer \<Rightarrow> u8 list" where
  "mbuf_contents m = map (\<lambda>i. buf m ! ((tail m + i) mod MBUF_SIZE)) [0..<mbuf_count m]"

definition mbuf_wf :: "Mousebuffer \<Rightarrow> bool" where
  "mbuf_wf m = (length (buf m) = MBUF_SIZE \<and> head m < MBUF_SIZE \<and> tail m < MBUF_SIZE)"

definition mbuf_full :: "Mousebuffer \<Rightarrow> bool" where
  "mbuf_full m = ((head m + 1) mod MBUF_SIZE = tail m)"

section \<open>Process-wide state\<close>

text \<open>
  \<open>class MyTimer\<close> (the objects \<open>jiggletimer\<close> and \<open>heartbeat\<close>).  \<open>count\<close> is
  an \<open>int\<close> in the source; it is modelled unbounded (once above 60 it is no longer
  incremented by later calls).
\<close>

record MyTimer =
  start_time :: u32
  count :: int
  enabled :: bool

text \<open>
  The globals of the sketch, together with the function-local statics \<open>bit\<close>,
  \<open>data\<close> and \<open>parity\<close> of \<open>ps2_ISR\<close> (fields \<open>isr_bit\<close>, \<open>isr_data\<close>,
  \<open>isr_parity\<close>).
\<close>

record machine =
  mbuf :: Mousebuffer
  ps2_error :: u8
  isr_bit :: u8
  isr_data :: u8
  isr_parity :: bool
  xtrabutton :: u8
  buttons :: "bool list"
  scroll_sum :: i8
  lefthanded :: bool
  internal_scrolling :: bool
  jiggletimer :: MyTimer

section \<open>The receiver \<open>ps2_ISR\<close>\<close>

text \<open>The anonymous enum of bit positions.\<close>

definition NONE :: u8 where "NONE = 0"
definition START :: u8 where "START = 1"
definition BIT0 :: u8 where "BIT0 = 2"
definition BIT7 :: u8 where "BIT7 = 9"
definition PARITY :: u8 where "PARITY = 10"
definition STOP :: u8 where "STOP = 11"

text \<open>The labels \<open>done:\<close> and \<open>error:\<close> (the latter falls through into the former).\<close>

definition isr_done :: "machine \<Rightarrow> machine" where
  "isr_done s = s\<lparr> isr_bit := NONE, isr_data := 0, isr_parity := False \<rparr>"

definition isr_error :: "u8 \<Rightarrow> machine \<Rightarrow> machine" where
  "isr_error b s = isr_done (s\<lparr> ps2_error := b \<rparr>)"

text \<open>
  One invocation, with the levels sampled from the clock and data lines.  \<open>b\<close> is the
  static \<open>bit\<close> after \<open>bit++\<close>.
\<close>

definition ps2_ISR :: "bool \<Rightarrow> bool \<Rightarrow> machine \<Rightarrow> machine" where
  "ps2_ISR pin_CLK pin_DATA s =
     (if pin_CLK then s
      else
        let b = isr_bit s + 1 in
        if b = START then
          (if pin_DATA then isr_error b s else s\<lparr> isr_bit := b \<rparr>)
        else if BIT0 \<le> b \<and> b \<le> BIT7 then
          (if pin_DATA
           then s\<lparr> isr_bit := b, isr_data := drop_bit 1 (isr_data s) OR 0x80,
                    isr_parity := \<not> isr_parity s \<rparr>
           else s\<lparr> isr_bit := b, isr_data := drop_bit 1 (isr_data s) \<rparr>)
        else if b = PARITY then
          (if pin_DATA = isr_parity s then isr_error b s else s\<lparr> isr_bit := b \<rparr>)
        else if b = STOP then
          (if \<not> pin_DATA then isr_error b s
           else isr_done (s\<lparr> mbuf := mbuf_push (isr_data s) (mbuf s) \<rparr>))
        else isr_error b s)"

text \<open>A train of falling clock edges (clock sampled low), one data-line sample per edge.\<close>

fun isr_run :: "bool list \<Rightarrow> machine \<Rightarrow> machine" where
  "isr_run [] s = s"
| "isr_run (x # xs) s = isr_run xs (ps2_ISR False x s)"

text \<open>
  A serial frame as the device sends it: start bit, the data byte least significant bit
  first, parity bit, stop bit.  With odd parity the parity bit makes the number of ones
  among data and parity bits odd.
\<close>

definition data_bits :: "u8 \<Rightarrow> bool list" where
  "data_bits b = map (bit b) [0..<8]"

definition odd_parity :: "u8 \<Rightarrow> bool" where
  "odd_parity b = even (length (filter (\<lambda>x. x) (data_bits b)))"

definition frame_bits :: "bool \<Rightarrow> u8 \<Rightarrow> bool \<Rightarrow> bool \<Rightarrow> bool list" where
  "frame_bits start b par stop = start # data_bits b @ [par, stop]"

definition isr_idle :: "machine \<Rightarrow> bool" where
  "isr_idle s = (isr_bit s = NONE \<and> isr_data s = 0 \<and> \<not> isr_parity s)"


text \<open>What one data-bit invocation does to the accumulator \<open>data\<close>.\<close>

definition data_step :: "u8 \<Rightarrow> bool \<Rightarrow> u8" where
  "data_step d x = (if x then drop_bit 1 d OR 0x80 else drop_bit 1 d)"

text \<open>The state at boot, from the initialisers of the globals.\<close>

definition timer_init :: MyTimer where
  "timer_init = \<lparr> start_time = 0, count = 0, enabled = True \<rparr>"

definition machine_init :: machine where
  "machine_init =
     \<lparr> mbuf = mbuf_init, ps2_error = 0, isr_bit = NONE, isr_data = 0, isr_parity = False,
       xtrabutton = 0, buttons = [False, False, False, False], scroll_sum = 0,
       lefthanded = False, internal_scrolling = True, jiggletimer = timer_init \<rparr>"

section \<open>Waiting for a byte: \<open>mouse_ready\<close> and \<open>mouse_read\<close>\<close>

text \<open>
  \<open>mouse_ready\<close> polls \<open>mbuf.empty()\<close> at most 200 times with \<open>delay(1)\<close> in
  between.  The interrupt can only run during those delays; the list \<open>arr\<close> gives, for
  each delay in turn, the bytes the receiver pushed during it (none once the list is
  used up).  \<open>retry--\<close> tests the old value, so the body runs for 200, 199, ..., 1.
\<close>

fun mouse_ready_wait :: "nat \<Rightarrow> u8 list list \<Rightarrow> Mousebuffer \<Rightarrow> u8 list list \<times> Mousebuffer" where
  "mouse_ready_wait 0 arr m = (arr, m)"
| "mouse_ready_wait (Suc retry) arr m =
     (if mbuf_empty m
      then (case arr of
              [] \<Rightarrow> mouse_ready_wait retry [] m
            | a # as \<Rightarrow> mouse_ready_wait retry as (pushes a m))
      else (arr, m))"

definition mouse_ready :: "u8 list list \<Rightarrow> Mousebuffer \<Rightarrow> bool \<times> u8 list list \<times> Mousebuffer" where
  "mouse_ready arr m =
     (case mouse_ready_wait 200 arr m of (arr', m') \<Rightarrow> (\<not> mbuf_empty m', arr', m'))"

definition mouse_read :: "u8 list list \<Rightarrow> Mousebuffer \<Rightarrow> u8 \<times> u8 list list \<times> Mousebuffer" where
  "mouse_read arr m =
     (case mouse_ready arr m of
        (ready, arr', m') \<Rightarrow>
          if ready then (case mbuf_pull m' of (x, m'') \<Rightarrow> (x, arr', m''))
          else (0, arr', m'))"

section \<open>The timer \<open>MyTimer\<close>\<close>

definition MyTimer_reset :: "u32 \<Rightarrow> MyTimer \<Rightarrow> MyTimer" where
  "MyTimer_reset now t = t\<lparr> start_time := now, count := 0 \<rparr>"




section \<open>Events sent to the host\<close>

text \<open>\<open>Mouse.move(x, y, wheel)\<close>, \<open>Mouse.press(b)\<close> and \<open>Mouse.release(b)\<close>.\<close>

datatype hid_event = Move i8 i8 i8 | Press u8 | Release u8

fun is_Move :: "hid_event \<Rightarrow> bool" where
  "is_Move (Move x y z) = True"
| "is_Move _ = False"

text \<open>\<open>move\<close>: send the motion and restart the jiggle timer at the current \<open>millis()\<close>.\<close>

definition move :: "u32 \<Rightarrow> i8 \<Rightarrow> i8 \<Rightarrow> i8 \<Rightarrow> machine \<Rightarrow> machine \<times> hid_event list" where
  "move now x y z s = (s\<lparr> jiggletimer := MyTimer_reset now (jiggletimer s) \<rparr>, [Move x y z])"

section \<open>Decoding and translating a report\<close>

definition ps2pp_decode :: "u8 \<Rightarrow> u8 \<Rightarrow> u8 \<Rightarrow> machine \<Rightarrow> bool \<times> machine" where
  "ps2pp_decode b0 b1 b2 s =
     (if b0 AND 0x48 \<noteq> 0x48 \<or> b1 AND 0x02 \<noteq> 0x02 then (False, s)
      else if b0 AND 0x30 = 0x0 \<and> b1 AND 0xf0 = 0xd0
        then (True, s\<lparr> xtrabutton := b2 AND 0x30 \<rparr>)
        else (True, s))"

text \<open>\<open>map_buttons\<close> reads the global \<open>lefthanded\<close>; here it is the first argument.\<close>

definition map_buttons :: "bool \<Rightarrow> u8 \<Rightarrow> u8 \<Rightarrow> u8" where
  "map_buttons lh mstat xtra =
     (if \<not> lh then
        (let ret = mstat AND 0x07;
             ret = (if xtra AND 0x20 \<noteq> 0 then ret OR 0x04 else ret);
             ret = (if xtra AND 0x10 \<noteq> 0 then ret OR 0x10 else ret)
         in ret)
      else
        (let ret = (if mstat AND 0x01 \<noteq> 0 then 0x02 else 0);
             ret = (if mstat AND 0x02 \<noteq> 0 then ret OR 0x01 else ret);
             ret = (if xtra AND 0x10 \<noteq> 0 then ret OR 0x04 else ret);
             ret = (if xtra AND 0x20 \<noteq> 0 then ret OR 0x10 else ret)
         in ret))"

definition bimask :: "u8 list" where
  "bimask = [0x01, 0x02, 0x04, 0x10]"

definition bomask :: "u8 list" where
  "bomask = [0x01, 0x02, 0x04, 0x08]"

text \<open>
  \<open>int8_t\<close> division by 8: the operand is promoted to \<open>int\<close>, C division truncates
  toward zero, and the quotient is stored back into an \<open>int8_t\<close>.
\<close>

definition div8 :: "i8 \<Rightarrow> i8" where
  "div8 v = word_of_int (sint v sdiv 8)"

text \<open>
  The branch taken while the red button is held and scrolling is handled internally.
  \<open>scroll_sum += my\<close> stores the sum back into an \<open>int8_t\<close>, hence the 8-bit
  addition.
\<close>

definition scroll_branch :: "u32 \<Rightarrow> i8 \<Rightarrow> machine \<Rightarrow> machine \<times> hid_event list" where
  "scroll_branch now my s =
     (let scroll = div8 my;
          s1 = (if scroll = 0 then s\<lparr> scroll_sum := scroll_sum s + my \<rparr> else s);
          scroll = (if scroll = 0 then div8 (scroll_sum s1) else scroll)
      in if scroll \<noteq> 0 then move now 0 0 scroll (s1\<lparr> scroll_sum := 0 \<rparr>)
         else (s1, []))"

text \<open>The other branch: ordinary motion, vertical axis negated.\<close>

definition move_branch :: "u32 \<Rightarrow> i8 \<Rightarrow> i8 \<Rightarrow> machine \<Rightarrow> machine \<times> hid_event list" where
  "move_branch now mx my s =
     (case (if mx \<noteq> 0 \<or> my \<noteq> 0 then move now mx (- my) 0 s else (s, [])) of
        (s1, ev) \<Rightarrow> (s1\<lparr> scroll_sum := 0 \<rparr>, ev))"

text \<open>The loop over \<open>buttons\<close>, for the indices still to visit.\<close>

fun handle_buttons :: "nat list \<Rightarrow> u8 \<Rightarrow> machine \<Rightarrow> machine \<times> hid_event list" where
  "handle_buttons [] btn s = (s, [])"
| "handle_buttons (i # is) btn s =
     (if internal_scrolling s \<and> i = 3 then handle_buttons is btn s
      else
        (let button = (btn AND bimask ! i \<noteq> 0);
             ev = (if \<not> buttons s ! i \<and> button then [Press (bomask ! i)]
                   else if buttons s ! i \<and> \<not> button then [Release (bomask ! i)]
                   else [])
         in case handle_buttons is btn (s\<lparr> buttons := (buttons s)[i := button] \<rparr>) of
              (s', evs) \<Rightarrow> (s', ev @ evs)))"

text \<open>
  The part of \<open>loop\<close> after the overflow check: translate the buttons, scroll or move,
  then report button changes.
\<close>

definition process_motion :: "u32 \<Rightarrow> u8 \<Rightarrow> i8 \<Rightarrow> i8 \<Rightarrow> machine \<Rightarrow> machine \<times> hid_event list" where
  "process_motion now mstat mx my s =
     (let btn = map_buttons (lefthanded s) mstat (xtrabutton s);
          redbutton = (btn AND bimask ! 3 \<noteq> 0)
      in case (if internal_scrolling s \<and> redbutton then scroll_branch now my s
               else move_branch now mx my s) of
           (s1, ev1) \<Rightarrow>
             (case handle_buttons [0..<4] btn s1 of (s2, ev2) \<Rightarrow> (s2, ev1 @ ev2)))"

text \<open>
  The part of \<open>loop\<close> that handles one report \<open>(mstat, mx, my)\<close> once its three bytes
  are read.  \<open>susp\<close> is \<open>USBDevice.isSuspended()\<close>, \<open>now\<close> is \<open>millis()\<close>.  The first
  component tells whether \<open>loop\<close> returned early (\<open>False\<close>) or goes on to the jiggle
  timer (\<open>True\<close>).
\<close>

definition loop_report :: "bool \<Rightarrow> u32 \<Rightarrow> u8 \<Rightarrow> i8 \<Rightarrow> i8 \<Rightarrow> machine \<Rightarrow> bool \<times> machine \<times> hid_event list" where
  "loop_report susp now mstat mx my s =
     (case ps2pp_decode mstat mx my s of
        (handled, s1) \<Rightarrow>
          if handled \<or> susp then (False, s1, [])
          else if mstat AND 0xC0 \<noteq> 0 then (False, s1\<lparr> ps2_error := mstat \<rparr>, [])
          else (case process_motion now mstat mx my s1 of (s2, evs) \<Rightarrow> (True, s2, evs)))"

section \<open>The idle jiggle at the end of \<open>loop\<close>\<close>









section \<open>Words of the specification\<close>

text \<open>
  Exchanging the left and right logical bits (0x01, 0x02) and the middle and
  scroll-role logical bits (0x04, 0x10) of a logical button set.
\<close>

definition exchange_buttons :: "u8 \<Rightarrow> u8" where
  "exchange_buttons v =
     (v AND 0xE8)
       OR (if bit v 0 then 0x02 else 0) OR (if bit v 1 then 0x01 else 0)
       OR (if bit v 2 then 0x10 else 0) OR (if bit v 4 then 0x04 else 0)"

text \<open>A motion report that \<open>loop\<close> routes to the scroll branch in state \<open>s\<close>.\<close>

definition scroll_report :: "machine \<Rightarrow> bool \<times> u32 \<times> u8 \<times> i8 \<times> i8 \<Rightarrow> bool" where
  "scroll_report s r =
     (case r of (susp, now, mstat, mx, my) \<Rightarrow>
        \<not> susp \<and> mstat AND 0xC0 = 0 \<and> internal_scrolling s \<and>
        map_buttons (lefthanded s) mstat (xtrabutton s) AND 0x10 \<noteq> 0)"



section \<open>The receiver decodes frames\<close>

lemma bit_0x80: "bit (128 :: int) n \<longleftrightarrow> n = 7"
proof -
  have "(128 :: int) = 2 ^ 7" by simp
  then show ?thesis by (simp only: bit_exp_iff) auto
qed

lemma bit_data_step:
  "bit (data_step d x) n \<longleftrightarrow> (if n = 7 then x else n < 7 \<and> bit d (Suc n))"
  by (cases x) (auto simp: data_step_def bit_or_iff bit_drop_bit_eq bit_0x80 dest: bit_imp_le_length)

lemma ps2_ISR_data:
  "isr_bit s = 1 \<or> isr_bit s = 2 \<or> isr_bit s = 3 \<or> isr_bit s = 4 \<or> isr_bit s =  5 \<or> isr_bit s = 6 \<or> isr_bit s = 7 \<or> isr_bit s = 8 \<Longrightarrow>
   ps2_ISR False x s = s\<lparr> isr_bit := isr_bit s + 1, isr_data := data_step (isr_data s) x,
                          isr_parity := (isr_parity s \<noteq> x) \<rparr>"
  apply (elim disjE)
  apply (simp_all add: ps2_ISR_def data_step_def Let_def START_def BIT0_def BIT7_def)
  done

lemma list8:
  assumes "length xs = 8"
  obtains x0 x1 x2 x3 x4 x5 x6 x7 where "xs = [x0, x1, x2, x3, x4, x5, x6, x7 :: 'a]"
proof -
  from assms have "length xs = Suc (Suc (Suc (Suc (Suc (Suc (Suc (Suc 0)))))))" by simp
  then show ?thesis using that by (auto simp: length_Suc_conv)
qed

lemma bit_foldl_data_step:
  assumes "length xs = 8" "n < 8"
  shows "bit (foldl data_step d xs) n = xs ! n"
proof -
  from assms(1) obtain x0 x1 x2 x3 x4 x5 x6 x7 where xs: "xs = [x0, x1, x2, x3, x4, x5, x6, x7]"
    by (rule list8)
  from assms(2) consider "n = 0" | "n = 1" | "n = 2" | "n = 3" | "n = 4" | "n = 5" | "n = 6" | "n = 7"
    by linarith
  then show ?thesis
    by cases (simp_all add: xs bit_data_step)
qed

lemma foldl_data_step_byte: "foldl data_step d (data_bits b) = b"
proof (rule bit_eqI)
  fix n
  assume "possible_bit TYPE(u8) n"
  then have n: "n < 8" by (simp add: possible_bit_word)
  have "bit (foldl data_step d (data_bits b)) n = data_bits b ! n"
    by (rule bit_foldl_data_step) (simp_all add: data_bits_def n)
  also have "\<dots> = bit b n"
    using n by (simp add: data_bits_def)
  finally show "bit (foldl data_step d (data_bits b)) n = bit b n" .
qed

lemma parity_fold: "foldl (\<noteq>) p xs = (p \<noteq> odd (length (filter (\<lambda>x. x) xs)))"
  by (induction xs arbitrary: p) auto

lemma isr_run_8:
  assumes "isr_bit s = START" "length xs = 8"
  shows "isr_run xs s =
         s\<lparr> isr_bit := BIT7, isr_data := foldl data_step (isr_data s) xs,
            isr_parity := foldl (\<noteq>) (isr_parity s) xs \<rparr>"
proof -
  from assms(2) obtain x0 x1 x2 x3 x4 x5 x6 x7 where xs: "xs = [x0, x1, x2, x3, x4, x5, x6, x7]"
    by (rule list8)
  show ?thesis
    using assms(1) by (simp add: xs ps2_ISR_data START_def BIT7_def)
qed

lemma isr_run_data:
  assumes "isr_bit s = START"
  shows "isr_run (data_bits b) s =
         s\<lparr> isr_bit := BIT7, isr_data := b, isr_parity := (isr_parity s = odd_parity b) \<rparr>"
proof -
  have p: "foldl (\<noteq>) (isr_parity s) (data_bits b) = (isr_parity s = odd_parity b)"
    by (simp only: parity_fold odd_parity_def) auto
  have "length (data_bits b) = 8" by (simp add: data_bits_def)
  from isr_run_8 [OF assms this] show ?thesis
    by (simp only: foldl_data_step_byte p)
qed

lemma ps2_ISR_start:
  "isr_bit s = NONE \<Longrightarrow>
   ps2_ISR False x s = (if x then isr_error START s else s\<lparr> isr_bit := START \<rparr>)"
  by (simp add: ps2_ISR_def NONE_def START_def)

lemma ps2_ISR_parity:
  "isr_bit s = BIT7 \<Longrightarrow>
   ps2_ISR False x s = (if x = isr_parity s then isr_error PARITY s else s\<lparr> isr_bit := PARITY \<rparr>)"
  by (simp add: ps2_ISR_def BIT7_def BIT0_def START_def PARITY_def)

lemma ps2_ISR_stop:
  "isr_bit s = PARITY \<Longrightarrow>
   ps2_ISR False x s =
     (if \<not> x then isr_error STOP s
      else isr_done (s\<lparr> mbuf := mbuf_push (isr_data s) (mbuf s) \<rparr>))"
  by (simp add: ps2_ISR_def BIT7_def BIT0_def START_def PARITY_def STOP_def)

lemma isr_run_append: "isr_run (xs @ ys) s = isr_run ys (isr_run xs s)"
  by (induction xs arbitrary: s) simp_all

lemma frame_valid:
  assumes "isr_idle s"
  shows "isr_run (frame_bits False b (odd_parity b) True) s = s\<lparr> mbuf := mbuf_push b (mbuf s) \<rparr>"
  using assms
  by (simp add: frame_bits_def isr_idle_def isr_run_append ps2_ISR_start isr_run_data
      ps2_ISR_parity ps2_ISR_stop isr_done_def START_def BIT7_def PARITY_def NONE_def)


lemma nat_le_10_cases:
  fixes k :: nat
  assumes "k \<le> 10"
  shows "k \<in> {0, 1, 2, 3, 4, 5, 6, 7, 8, 9, 10}"
  using assms by (auto simp add: eval_nat_numeral le_Suc_eq)

lemma u8_of_unat: "unat (w :: u8) = k \<Longrightarrow> w = of_nat k"
  by auto

lemma u8_le_10_cases:
  fixes w :: u8
  assumes "w \<le> 10"
  shows "w \<in> {0, 1, 2, 3, 4, 5, 6, 7, 8, 9, 10}"
proof -
  from assms have "unat w \<le> 10" by (simp add: word_le_nat_alt)
  then have "unat w \<in> {0, 1, 2, 3, 4, 5, 6, 7, 8, 9, 10}" by (rule nat_le_10_cases)
  then show ?thesis
    unfolding insert_iff empty_iff
    by (elim disjE FalseE) (drule u8_of_unat, simp)+
qed

lemma ps2_ISR_position:
  assumes "isr_bit s \<le> 10"
  shows "(isr_bit s = NONE \<and>
            ps2_ISR False x s = (if x then isr_error START s else s\<lparr> isr_bit := START \<rparr>))
       \<or> (isr_bit s \<noteq> PARITY \<and> isr_bit s + 1 \<le> 10 \<and> unat (isr_bit s + 1) = unat (isr_bit s) + 1 \<and>
            ps2_ISR False x s = s\<lparr> isr_bit := isr_bit s + 1, isr_data := data_step (isr_data s) x,
                                   isr_parity := (isr_parity s \<noteq> x) \<rparr>)
       \<or> (isr_bit s = BIT7 \<and>
            ps2_ISR False x s =
              (if x = isr_parity s then isr_error PARITY s else s\<lparr> isr_bit := PARITY \<rparr>))
       \<or> (isr_bit s = PARITY \<and>
            ps2_ISR False x s =
              (if \<not> x then isr_error STOP s
               else isr_done (s\<lparr> mbuf := mbuf_push (isr_data s) (mbuf s) \<rparr>)))"
  using u8_le_10_cases [OF assms]
  unfolding insert_iff empty_iff
  apply (elim disjE FalseE)
            apply (simp add: ps2_ISR_start NONE_def)
           apply (simp add: ps2_ISR_data PARITY_def)
          apply (simp add: ps2_ISR_data PARITY_def)
         apply (simp add: ps2_ISR_data PARITY_def)
        apply (simp add: ps2_ISR_data PARITY_def)
       apply (simp add: ps2_ISR_data PARITY_def)
      apply (simp add: ps2_ISR_data PARITY_def)
     apply (simp add: ps2_ISR_data PARITY_def)
    apply (simp add: ps2_ISR_data PARITY_def)
   apply (simp add: ps2_ISR_parity BIT7_def)
  apply (simp add: ps2_ISR_stop PARITY_def)
  done


lemma ps2_ISR_bit_le:
  assumes "isr_bit s \<le> 10"
  shows "isr_bit (ps2_ISR False x s) \<le> 10"
  using ps2_ISR_position [OF assms, of x]
  by (elim disjE conjE)
     (simp_all add: isr_error_def isr_done_def NONE_def START_def PARITY_def)

lemma ps2_ISR_bit_step:
  assumes "isr_bit s \<le> 10"
  shows "unat (isr_bit (ps2_ISR False x s)) \<le> unat (isr_bit s) + 1"
  using ps2_ISR_position [OF assms, of x]
  by (elim disjE conjE)
     (simp_all add: isr_error_def isr_done_def NONE_def START_def BIT7_def PARITY_def)

lemma ps2_ISR_error_kept:
  assumes "isr_bit s \<le> 10" "ps2_error s \<noteq> 0"
  shows "ps2_error (ps2_ISR False x s) \<noteq> 0"
  using ps2_ISR_position [OF assms(1), of x] assms(2)
  by (elim disjE conjE)
     (simp_all add: isr_error_def isr_done_def START_def PARITY_def STOP_def)

lemma ps2_ISR_mbuf_kept:
  assumes "isr_bit s \<le> 10" "isr_bit s \<noteq> PARITY"
  shows "mbuf (ps2_ISR False x s) = mbuf s"
  using ps2_ISR_position [OF assms(1), of x] assms(2)
  by (elim disjE conjE)
     (simp_all add: isr_error_def isr_done_def)

lemma isr_run_bit_le:
  "isr_bit s \<le> 10 \<Longrightarrow> isr_bit (isr_run xs s) \<le> 10"
  by (induction xs arbitrary: s) (simp_all add: ps2_ISR_bit_le)

lemma isr_run_error_kept:
  "isr_bit s \<le> 10 \<Longrightarrow> ps2_error s \<noteq> 0 \<Longrightarrow> ps2_error (isr_run xs s) \<noteq> 0"
  by (induction xs arbitrary: s) (simp_all add: ps2_ISR_bit_le ps2_ISR_error_kept)

lemma isr_run_mbuf_kept:
  "unat (isr_bit s) + length xs \<le> 10 \<Longrightarrow> mbuf (isr_run xs s) = mbuf s"
proof (induction xs arbitrary: s)
  case Nil
  then show ?case by simp
next
  case (Cons x xs)
  from Cons.prems have le: "isr_bit s \<le> 10" and ne: "isr_bit s \<noteq> PARITY"
    by (auto simp: word_le_nat_alt PARITY_def)
  have "unat (isr_bit (ps2_ISR False x s)) + length xs \<le> 10"
    using ps2_ISR_bit_step [OF le, of x] Cons.prems by simp
  then have "mbuf (isr_run xs (ps2_ISR False x s)) = mbuf (ps2_ISR False x s)"
    by (rule Cons.IH)
  then show ?case
    by (simp add: ps2_ISR_mbuf_kept [OF le ne])
qed


text \<open>
  What the receiver does with the eleven bits of a frame, in terms of \<open>mbuf_push\<close>:
  the valid frame, the invocation that samples each kind of bad bit, and the whole of
  any corrupted frame.
\<close>

lemma frame_decoding:
  assumes idle: "isr_idle s"
  shows "isr_run (frame_bits False b (odd_parity b) True) s = s\<lparr> mbuf := mbuf_push b (mbuf s) \<rparr>
       \<and> ps2_ISR False True s = s\<lparr> ps2_error := START \<rparr>
       \<and> isr_run (take 10 (frame_bits False b (\<not> odd_parity b) stop)) s = s\<lparr> ps2_error := PARITY \<rparr>
       \<and> isr_run (frame_bits False b (odd_parity b) False) s = s\<lparr> ps2_error := STOP \<rparr>
       \<and> START \<noteq> 0 \<and> PARITY \<noteq> 0 \<and> STOP \<noteq> 0
       \<and> (start \<or> par \<noteq> odd_parity b \<or> \<not> stop \<longrightarrow>
            mbuf (isr_run (frame_bits start b par stop) s) = mbuf s
          \<and> ps2_error (isr_run (frame_bits start b par stop) s) \<noteq> 0)"
proof -
  from idle have bit0: "isr_bit s = NONE" and d0: "isr_data s = 0" and p0: "\<not> isr_parity s"
    by (simp_all add: isr_idle_def)
  have nine: "isr_run (False # data_bits b) s =
      s\<lparr> isr_bit := BIT7, isr_data := b, isr_parity := \<not> odd_parity b \<rparr>"
    using bit0 p0 by (simp add: ps2_ISR_start isr_run_data START_def)
  have valid: "isr_run (frame_bits False b (odd_parity b) True) s = s\<lparr> mbuf := mbuf_push b (mbuf s) \<rparr>"
    using idle by (rule frame_valid)
  have bad_start: "ps2_ISR False True s = s\<lparr> ps2_error := START \<rparr>"
    using bit0 d0 p0 by (simp add: ps2_ISR_start isr_error_def isr_done_def)
  have len: "length (data_bits b) = 8" by (simp add: data_bits_def)
  have take10: "take 10 (frame_bits False b p stop) = (False # data_bits b) @ [p]" for p
    using len by (simp add: frame_bits_def)
  have bad_parity: "isr_run ((False # data_bits b) @ [p]) s = s\<lparr> ps2_error := PARITY \<rparr>"
    if "p \<noteq> odd_parity b" for p
    using that bit0 d0 p0
    by (simp only: isr_run_append nine) (auto simp add: ps2_ISR_parity isr_error_def isr_done_def)
  have frame_split: "frame_bits False b p t = ((False # data_bits b) @ [p]) @ [t]" for p t
    by (simp add: frame_bits_def)
  have bad_stop: "isr_run (frame_bits False b (odd_parity b) False) s = s\<lparr> ps2_error := STOP \<rparr>"
    using bit0 d0 p0
    by (simp only: frame_split isr_run_append nine)
       (simp add: ps2_ISR_parity ps2_ISR_stop isr_error_def isr_done_def BIT7_def PARITY_def)
  have good_parity: "isr_run ((False # data_bits b) @ [odd_parity b]) s =
      s\<lparr> isr_bit := PARITY, isr_data := b, isr_parity := \<not> odd_parity b \<rparr>"
    by (simp only: isr_run_append nine) (simp add: ps2_ISR_parity)
  have whole: "mbuf (isr_run (frame_bits start b par stop) s) = mbuf s
      \<and> ps2_error (isr_run (frame_bits start b par stop) s) \<noteq> 0"
    if bad: "start \<or> par \<noteq> odd_parity b \<or> \<not> stop"
  proof (cases start)
    case True
    have fr: "frame_bits start b par stop = True # (data_bits b @ [par, stop])"
      using True by (simp add: frame_bits_def)
    let ?s1 = "s\<lparr> ps2_error := START \<rparr>"
    have b1: "isr_bit ?s1 \<le> 10" using bit0 by (simp add: NONE_def)
    have "unat (isr_bit ?s1) + length (data_bits b @ [par, stop]) \<le> 10"
      using bit0 len by (simp add: NONE_def)
    then have "mbuf (isr_run (data_bits b @ [par, stop]) ?s1) = mbuf ?s1"
      by (rule isr_run_mbuf_kept)
    moreover have "ps2_error (isr_run (data_bits b @ [par, stop]) ?s1) \<noteq> 0"
      using b1 by (rule isr_run_error_kept) (simp add: START_def)
    ultimately show ?thesis
      by (simp add: fr bad_start)
  next
    case False
    note nostart = this
    show ?thesis
    proof (cases "par = odd_parity b")
      case True
      with bad nostart have "\<not> stop" by simp
      with True nostart bad_stop show ?thesis by (simp add: STOP_def)
    next
      case False
      have fr: "frame_bits start b par stop = ((False # data_bits b) @ [par]) @ [stop]"
        using nostart by (simp add: frame_bits_def)
      let ?s1 = "s\<lparr> ps2_error := PARITY \<rparr>"
      have run: "isr_run (frame_bits start b par stop) s = ps2_ISR False stop ?s1"
        unfolding fr isr_run_append [of "(False # data_bits b) @ [par]"] bad_parity [OF False]
        by simp
      have b1: "isr_bit ?s1 \<le> 10" using bit0 by (simp add: NONE_def)
      have "mbuf (ps2_ISR False stop ?s1) = mbuf ?s1"
        using b1 by (rule ps2_ISR_mbuf_kept) (simp add: bit0 NONE_def PARITY_def)
      moreover have "ps2_error (ps2_ISR False stop ?s1) \<noteq> 0"
        using b1 by (rule ps2_ISR_error_kept) (simp add: PARITY_def)
      ultimately show ?thesis
        by (simp add: run)
    qed
  qed
  show ?thesis
    using valid bad_start bad_parity [of "\<not> odd_parity b"] bad_stop whole
    by (simp only: take10) (simp add: START_def PARITY_def STOP_def)
qed

text \<open>
  C4 (as amended).  After the start bit and the eight data bits of a frame, the receiver
  is at the position before PARITY and its running parity flag, toggled once per 1 data
  bit from \<open>False\<close>, tells whether the number of ones was odd.  The next sample is
  accepted (the position advances, nothing else changes) if and only if it differs from
  the flag; a sample equal to the flag stores the nonzero code \<open>PARITY\<close> in
  \<open>ps2_error\<close> and resets the receiver.
\<close>

theorem ps2_ISR_parity_check:
  assumes "isr_idle s"
  shows "isr_bit (isr_run (False # data_bits b) s) = BIT7
       \<and> isr_parity (isr_run (False # data_bits b) s) = odd (length (filter (\<lambda>x. x) (data_bits b)))
       \<and> (x \<noteq> isr_parity (isr_run (False # data_bits b) s) \<longrightarrow>
            ps2_ISR False x (isr_run (False # data_bits b) s)
              = (isr_run (False # data_bits b) s)\<lparr> isr_bit := PARITY \<rparr>)
       \<and> (x = isr_parity (isr_run (False # data_bits b) s) \<longrightarrow>
            ps2_ISR False x (isr_run (False # data_bits b) s) = s\<lparr> ps2_error := PARITY \<rparr>)
       \<and> PARITY \<noteq> 0"
proof -
  from assms have bit0: "isr_bit s = NONE" and d0: "isr_data s = 0" and p0: "\<not> isr_parity s"
    by (simp_all add: isr_idle_def)
  have nine: "isr_run (False # data_bits b) s =
      s\<lparr> isr_bit := BIT7, isr_data := b, isr_parity := \<not> odd_parity b \<rparr>"
    using bit0 p0 by (simp add: ps2_ISR_start isr_run_data START_def)
  show ?thesis
    using bit0 d0 p0
    by (simp only: nine) (auto simp add: ps2_ISR_parity odd_parity_def isr_error_def isr_done_def PARITY_def)
qed

text \<open>The byte 0x01: the flag is set, a 0 parity bit passes, a 1 parity bit is an error.\<close>

theorem ps2_ISR_parity_check_witness:
  "isr_idle machine_init
   \<and> isr_parity (isr_run (False # data_bits 0x01) machine_init)
   \<and> ps2_ISR False False (isr_run (False # data_bits 0x01) machine_init)
       = (isr_run (False # data_bits 0x01) machine_init)\<lparr> isr_bit := PARITY \<rparr>
   \<and> ps2_ISR False True (isr_run (False # data_bits 0x01) machine_init)
       = machine_init\<lparr> ps2_error := PARITY \<rparr>"
proof -
  have h: "isr_idle machine_init"
    by (simp add: isr_idle_def machine_init_def)
  have p: "odd (length (filter (\<lambda>x. x) (data_bits 0x01)))"
    by (simp add: data_bits_def upt_rec)
  from ps2_ISR_parity_check [OF h, of "0x01" False] ps2_ISR_parity_check [OF h, of "0x01" True] h p
  show ?thesis
    by simp
qed

text \<open>
  The byte 0x00: the flag is \<open>False\<close> at the parity position.  A sample equal to the
  flag is flagged as an error, a sample different from it is accepted.
\<close>

theorem ps2_ISR_parity_counterexample:
  "isr_bit (isr_run (False # data_bits 0x00) machine_init) = BIT7
   \<and> isr_parity (isr_run (False # data_bits 0x00) machine_init) = False
   \<and> ps2_error (ps2_ISR False False (isr_run (False # data_bits 0x00) machine_init)) = PARITY
   \<and> PARITY \<noteq> 0
   \<and> ps2_error (ps2_ISR False True (isr_run (False # data_bits 0x00) machine_init)) = 0
   \<and> isr_bit (ps2_ISR False True (isr_run (False # data_bits 0x00) machine_init)) = PARITY"
  by (simp add: data_bits_def upt_rec ps2_ISR_def machine_init_def isr_error_def isr_done_def
      NONE_def START_def BIT0_def BIT7_def PARITY_def STOP_def)

section \<open>The ring buffer is a bounded FIFO\<close>

lemma ring_sub:
  fixes h t :: nat
  assumes "h < 16" "t < 16"
  shows "(h + 16 - t) mod 16 = (if t \<le> h then h - t else h + 16 - t)"
proof (cases "t \<le> h")
  case True
  then have "h + 16 - t = (h - t) + 16" by simp
  then have "(h + 16 - t) mod 16 = (h - t) mod 16" by (simp only: mod_add_self2)
  with True assms show ?thesis by simp
next
  case False
  with assms show ?thesis by simp
qed

lemma ring_add:
  fixes t i :: nat
  assumes "t < 16" "i < 16"
  shows "(t + i) mod 16 = (if t + i < 16 then t + i else t + i - 16)"
proof (cases "t + i < 16")
  case True
  then show ?thesis by simp
next
  case False
  then have "t + i = (t + i - 16) + 16" by simp
  then have "(t + i) mod 16 = (t + i - 16) mod 16" by (metis mod_add_self2)
  with False assms show ?thesis by simp
qed

lemma ring_head: 
  fixes h t :: nat
  assumes "h < 16" "t < 16"
  shows "(t + (h + 16 - t) mod 16) mod 16 = h"
proof -
  have "(h + 16 - t) mod 16 < 16" by simp
  with assms show ?thesis
    by (simp add: ring_add) (simp add: ring_sub)
qed

lemma ring_not_head:
  fixes h t i :: nat
  assumes "h < 16" "t < 16" "i < (h + 16 - t) mod 16"
  shows "(t + i) mod 16 \<noteq> h"
proof -
  have i: "i < 16" using assms(3) by (rule less_trans) simp
  have a: "(t + i) mod 16 = (if t + i < 16 then t + i else t + i - 16)"
    using assms(2) i by (rule ring_add)
  have b: "(h + 16 - t) mod 16 = (if t \<le> h then h - t else h + 16 - t)"
    using assms(1,2) by (rule ring_sub)
  show ?thesis
    using assms unfolding a b by (auto split: if_splits)
qed

lemma ring_succ:
  fixes h :: nat
  assumes "h < 16"
  shows "(h + 1) mod 16 = (if h = 15 then 0 else h + 1)"
  using assms ring_add [of h 1] by auto

lemma ring_count_push:
  fixes h t :: nat
  assumes "h < 16" "t < 16" "(h + 1) mod 16 \<noteq> t"
  shows "((h + 1) mod 16 + 16 - t) mod 16 = Suc ((h + 16 - t) mod 16)"
proof -
  have n: "(h + 1) mod 16 = (if h = 15 then 0 else h + 1)"
    using assms(1) by (rule ring_succ)
  have a: "((h + 1) mod 16 + 16 - t) mod 16 =
      (if t \<le> (h + 1) mod 16 then (h + 1) mod 16 - t else (h + 1) mod 16 + 16 - t)"
    by (rule ring_sub) (simp_all add: assms)
  have b: "(h + 16 - t) mod 16 = (if t \<le> h then h - t else h + 16 - t)"
    using assms(1,2) by (rule ring_sub)
  show ?thesis
    using assms unfolding a unfolding b n by (auto split: if_splits)
qed

lemma ring_count_pull:
  fixes h t :: nat
  assumes "h < 16" "t < 16" "h \<noteq> t"
  shows "(h + 16 - t) mod 16 = Suc ((h + 16 - (t + 1) mod 16) mod 16)"
proof -
  have n: "(t + 1) mod 16 = (if t = 15 then 0 else t + 1)"
    using assms(2) by (rule ring_succ)
  have a: "(h + 16 - (t + 1) mod 16) mod 16 =
      (if (t + 1) mod 16 \<le> h then h - (t + 1) mod 16 else h + 16 - (t + 1) mod 16)"
    by (rule ring_sub) (simp_all add: assms)
  have b: "(h + 16 - t) mod 16 = (if t \<le> h then h - t else h + 16 - t)"
    using assms(1,2) by (rule ring_sub)
  show ?thesis
    using assms unfolding a unfolding b n by (auto split: if_splits)
qed

lemma ring_shift:
  fixes t i :: nat
  shows "((t + 1) mod 16 + i) mod 16 = (t + Suc i) mod 16"
  by (simp add: mod_add_left_eq)


lemma mbuf_count_length: "length (mbuf_contents m) = mbuf_count m"
  by (simp add: mbuf_contents_def)

lemma mbuf_empty_count: "mbuf_wf m \<Longrightarrow> mbuf_empty m \<longleftrightarrow> mbuf_count m = 0"
  by (auto simp add: mbuf_wf_def mbuf_empty_def mbuf_count_def MBUF_SIZE_def ring_sub)

lemma ring_full:
  fixes h t :: nat
  assumes "h < 16" "t < 16"
  shows "((h + 1) mod 16 = t) = ((h + 16 - t) mod 16 = 15)"
proof -
  have n: "(h + 1) mod 16 = (if h = 15 then 0 else h + 1)"
    using assms(1) by (rule ring_succ)
  have b: "(h + 16 - t) mod 16 = (if t \<le> h then h - t else h + 16 - t)"
    using assms by (rule ring_sub)
  show ?thesis
    using assms unfolding n b by (auto split: if_splits)
qed

lemma mbuf_full_count: "mbuf_wf m \<Longrightarrow> mbuf_full m \<longleftrightarrow> mbuf_count m = 15"
  using ring_full [of "head m" "tail m"]
  by (simp add: mbuf_wf_def mbuf_full_def mbuf_count_def MBUF_SIZE_def)

lemma mbuf_push_full: "mbuf_full m \<Longrightarrow> mbuf_push x m = m"
  by (simp add: mbuf_push_def mbuf_full_def)

lemma mbuf_push_wf: "mbuf_wf m \<Longrightarrow> mbuf_wf (mbuf_push x m)"
  by (simp add: mbuf_push_def mbuf_wf_def Let_def MBUF_SIZE_def)

lemma mbuf_pull_wf: "mbuf_wf m \<Longrightarrow> mbuf_wf (snd (mbuf_pull m))"
  by (simp add: mbuf_pull_def mbuf_wf_def MBUF_SIZE_def)

lemma mbuf_push_contents:
  assumes wf: "mbuf_wf m" and nf: "\<not> mbuf_full m"
  shows "mbuf_contents (mbuf_push x m) = mbuf_contents m @ [x]"
proof -
  from wf have len: "length (buf m) = 16" and h: "head m < 16" and t: "tail m < 16"
    by (simp_all add: mbuf_wf_def MBUF_SIZE_def)
  from nf have ne: "(head m + 1) mod 16 \<noteq> tail m"
    by (simp add: mbuf_full_def MBUF_SIZE_def)
  let ?c = "(head m + 16 - tail m) mod 16"
  let ?b = "(buf m)[head m := x]"
  have push: "mbuf_push x m = m\<lparr> buf := ?b, head := (head m + 1) mod 16 \<rparr>"
    using ne by (simp add: mbuf_push_def MBUF_SIZE_def)
  have cnt: "mbuf_count (mbuf_push x m) = Suc ?c"
    unfolding push using ring_count_push [OF h t ne] by (simp add: mbuf_count_def MBUF_SIZE_def)
  have old: "?b ! ((tail m + i) mod 16) = buf m ! ((tail m + i) mod 16)" if "i < ?c" for i
    using ring_not_head [OF h t that] by simp
  have new: "?b ! ((tail m + ?c) mod 16) = x"
    using ring_head [OF h t] h len by simp
  have "mbuf_contents (mbuf_push x m) = map (\<lambda>i. ?b ! ((tail m + i) mod 16)) [0..<Suc ?c]"
    by (simp only: mbuf_contents_def cnt) (simp add: push MBUF_SIZE_def)
  also have "\<dots> = map (\<lambda>i. ?b ! ((tail m + i) mod 16)) [0..<?c] @ [x]"
    using new by simp
  also have "map (\<lambda>i. ?b ! ((tail m + i) mod 16)) [0..<?c] = mbuf_contents m"
    using old by (simp add: mbuf_contents_def mbuf_count_def MBUF_SIZE_def)
  finally show ?thesis .
qed

lemma mbuf_pull_empty: "mbuf_empty m \<Longrightarrow> mbuf_pull m = (0, m)"
  by (simp add: mbuf_pull_def mbuf_empty_def)

lemma mbuf_pull_contents:
  assumes wf: "mbuf_wf m" and ne: "\<not> mbuf_empty m"
  shows "mbuf_contents m = fst (mbuf_pull m) # mbuf_contents (snd (mbuf_pull m))"
proof -
  from wf have len: "length (buf m) = 16" and h: "head m < 16" and t: "tail m < 16"
    by (simp_all add: mbuf_wf_def MBUF_SIZE_def)
  from ne have ht: "head m \<noteq> tail m" by (simp add: mbuf_empty_def)
  let ?t = "(tail m + 1) mod 16"
  let ?c = "(head m + 16 - ?t) mod 16"
  have pull: "mbuf_pull m = (buf m ! tail m, m\<lparr> tail := ?t \<rparr>)"
    using ht by (simp add: mbuf_pull_def MBUF_SIZE_def)
  have cnt: "mbuf_count m = Suc ?c"
    using ring_count_pull [OF h t ht] by (simp add: mbuf_count_def MBUF_SIZE_def)
  have "mbuf_contents m = map (\<lambda>i. buf m ! ((tail m + i) mod 16)) [0..<Suc ?c]"
    by (simp only: mbuf_contents_def cnt) (simp add: MBUF_SIZE_def)
  also have "\<dots> = buf m ! tail m # map (\<lambda>i. buf m ! ((tail m + Suc i) mod 16)) [0..<?c]"
    using t by (simp only: upt_conv_Cons [OF zero_less_Suc] list.map map_Suc_upt [symmetric] map_map o_def) simp
  also have "map (\<lambda>i. buf m ! ((tail m + Suc i) mod 16)) [0..<?c]
      = mbuf_contents (m\<lparr> tail := ?t \<rparr>)"
    by (simp add: mbuf_contents_def mbuf_count_def MBUF_SIZE_def ring_shift [simplified])
  finally show ?thesis
    by (simp add: pull)
qed


lemma pushes_wf: "mbuf_wf m \<Longrightarrow> mbuf_wf (pushes xs m)"
  by (induction xs arbitrary: m) (simp_all add: mbuf_push_wf)

lemma mbuf_count_le: "mbuf_wf m \<Longrightarrow> mbuf_count m \<le> 15"
proof -
  have "mbuf_count m < 16" by (simp add: mbuf_count_def MBUF_SIZE_def)
  then show ?thesis by simp
qed

lemma pushes_contents:
  "mbuf_wf m \<Longrightarrow> mbuf_contents (pushes xs m) = take 15 (mbuf_contents m @ xs)"
proof (induction xs arbitrary: m)
  case Nil
  then show ?case
    using mbuf_count_le [of m] by (simp add: mbuf_count_length)
next
  case (Cons x xs)
  show ?case
  proof (cases "mbuf_full m")
    case True
    then have "length (mbuf_contents m) = 15"
      using Cons.prems by (simp add: mbuf_full_count mbuf_count_length)
    then show ?thesis
      using Cons.IH [OF Cons.prems] by (simp add: mbuf_push_full [OF True])
  next
    case False
    have "mbuf_contents (pushes xs (mbuf_push x m)) = take 15 (mbuf_contents (mbuf_push x m) @ xs)"
      using Cons.prems by (intro Cons.IH mbuf_push_wf)
    then show ?thesis
      by (simp add: mbuf_push_contents [OF Cons.prems False])
  qed
qed

lemma pulls_wf: "mbuf_wf m \<Longrightarrow> mbuf_wf (snd (pulls n m))"
proof (induction n arbitrary: m)
  case 0
  then show ?case by simp
next
  case (Suc n)
  obtain x m' where p: "mbuf_pull m = (x, m')" by (cases "mbuf_pull m")
  from mbuf_pull_wf [OF Suc.prems] p have "mbuf_wf m'" by simp
  then have "mbuf_wf (snd (pulls n m'))" by (rule Suc.IH)
  then show ?case
    by (cases "pulls n m'") (simp add: p)
qed

lemma pulls_contents:
  "mbuf_wf m \<Longrightarrow>
   fst (pulls n m) = take n (mbuf_contents m) @ replicate (n - mbuf_count m) 0
   \<and> mbuf_contents (snd (pulls n m)) = drop n (mbuf_contents m)"
proof (induction n arbitrary: m)
  case 0
  then show ?case by simp
next
  case (Suc n)
  show ?case
  proof (cases "mbuf_empty m")
    case True
    then have c: "mbuf_count m = 0" using Suc.prems by (simp add: mbuf_empty_count)
    then have l: "mbuf_contents m = []" by (simp add: mbuf_contents_def)
    from Suc.IH [OF Suc.prems] show ?thesis
      by (cases "pulls n m") (simp add: mbuf_pull_empty [OF True] c l)
  next
    case False
    obtain x m' where p: "mbuf_pull m = (x, m')" by (cases "mbuf_pull m")
    from mbuf_pull_contents [OF Suc.prems False] p
    have l: "mbuf_contents m = x # mbuf_contents m'" by simp
    from mbuf_pull_wf [OF Suc.prems] p have wf': "mbuf_wf m'" by simp
    have c: "mbuf_count m = Suc (mbuf_count m')"
      using l by (simp add: mbuf_count_length [symmetric])
    from Suc.IH [OF wf'] show ?thesis
      by (cases "pulls n m'") (simp add: p l c)
  qed
qed

text \<open>
  C2 (as amended).  The ring keeps one of its 16 slots free, so it holds at most 15
  bytes.  Pushing N \<le> 15 bytes into an empty buffer (wherever its indices stand) and
  pulling N times returns the pushed bytes unchanged and in FIFO order, and leaves the
  buffer empty.  A buffer is full exactly when it holds 15 bytes; pushing into a full
  buffer returns the very same buffer (storage, head and tail unchanged), so the new
  byte is dropped; in general a run of pushes keeps the first bytes up to 15 in all.
\<close>

theorem mbuf_fifo:
  assumes "mbuf_wf m" "mbuf_empty m" "length xs \<le> 15"
  shows "fst (pulls (length xs) (pushes xs m)) = xs
       \<and> mbuf_empty (snd (pulls (length xs) (pushes xs m)))
       \<and> (mbuf_wf q \<longrightarrow> (mbuf_full q \<longleftrightarrow> length (mbuf_contents q) = 15))
       \<and> (mbuf_full q \<longrightarrow> mbuf_push x q = q)
       \<and> (mbuf_wf q \<longrightarrow> mbuf_contents (pushes ys q) = take 15 (mbuf_contents q @ ys))"
proof -
  from assms(1,2) have e: "mbuf_contents m = []"
    by (simp add: mbuf_empty_count mbuf_contents_def)
  have wf: "mbuf_wf (pushes xs m)" using assms(1) by (rule pushes_wf)
  have c: "mbuf_contents (pushes xs m) = xs"
    using assms(3) by (simp add: pushes_contents [OF assms(1)] e)
  then have n: "mbuf_count (pushes xs m) = length xs"
    by (simp add: mbuf_count_length [symmetric])
  let ?r = "pulls (length xs) (pushes xs m)"
  from pulls_contents [OF wf, of "length xs"]
  have f: "fst ?r = xs" and r: "mbuf_contents (snd ?r) = []"
    by (simp_all add: c n)
  have wfr: "mbuf_wf (snd ?r)" using wf by (rule pulls_wf)
  from r have "mbuf_count (snd ?r) = 0" by (simp add: mbuf_count_length [symmetric])
  with wfr have "mbuf_empty (snd ?r)" by (simp add: mbuf_empty_count)
  with f show ?thesis
    by (simp add: mbuf_full_count mbuf_count_length mbuf_push_full pushes_contents)
qed


text \<open>Three bytes through the boot-time buffer, and a push into a full buffer.\<close>

theorem mbuf_fifo_witness:
  "mbuf_wf mbuf_init \<and> mbuf_empty mbuf_init
   \<and> fst (pulls 3 (pushes [0x11, 0x22, 0x33] mbuf_init)) = [0x11, 0x22, 0x33]
   \<and> mbuf_wf \<lparr> buf = replicate 16 7, head = 15, tail = 0 \<rparr>
   \<and> mbuf_full \<lparr> buf = replicate 16 7, head = 15, tail = 0 \<rparr>
   \<and> length (mbuf_contents \<lparr> buf = replicate 16 7, head = 15, tail = 0 \<rparr>) = 15
   \<and> mbuf_push 9 \<lparr> buf = replicate 16 7, head = 15, tail = 0 \<rparr>
       = \<lparr> buf = replicate 16 7, head = 15, tail = 0 \<rparr>"
proof -
  let ?q = "\<lparr> buf = replicate 16 7, head = 15, tail = 0 \<rparr>"
  have a: "mbuf_wf mbuf_init" "mbuf_empty mbuf_init"
    by (simp_all add: mbuf_wf_def mbuf_empty_def mbuf_init_def MBUF_SIZE_def)
  have l: "length [0x11, 0x22, 0x33 :: u8] = 3" by simp
  have b: "length [0x11, 0x22, 0x33 :: u8] \<le> 15" by simp
  have c: "mbuf_wf ?q" "mbuf_full ?q"
    by (simp_all add: mbuf_wf_def mbuf_full_def MBUF_SIZE_def)
  note t = mbuf_fifo [OF a b, where q = ?q and x = 9, unfolded l]
  from t have 1: "fst (pulls 3 (pushes [0x11, 0x22, 0x33] mbuf_init)) = [0x11, 0x22, 0x33]"
    by (rule conjunct1)
  from t c have 2: "length (mbuf_contents ?q) = 15" by blast
  from t c have 3: "mbuf_push 9 ?q = ?q" by blast
  from a c 1 2 3 show ?thesis by blast
qed

text \<open>
  Sixteen pushes into the boot-time buffer followed by sixteen pulls: the sixteenth byte
  was dropped, and the sixteenth pull finds the buffer empty and returns 0.
\<close>

theorem mbuf_fifo_counterexample:
  "fst (pulls 16 (pushes [1, 2, 3, 4, 5, 6, 7, 8, 9, 10, 11, 12, 13, 14, 15, 16] mbuf_init))
     = [1, 2, 3, 4, 5, 6, 7, 8, 9, 10, 11, 12, 13, 14, 15, 0]
   \<and> fst (pulls 16 (pushes [1, 2, 3, 4, 5, 6, 7, 8, 9, 10, 11, 12, 13, 14, 15, 16] mbuf_init))
     \<noteq> [1, 2, 3, 4, 5, 6, 7, 8, 9, 10, 11, 12, 13, 14, 15, 16]"
proof -
  have wf: "mbuf_wf mbuf_init"
    by (simp add: mbuf_wf_def mbuf_init_def MBUF_SIZE_def)
  have e: "mbuf_contents mbuf_init = []"
    by (simp add: mbuf_contents_def mbuf_count_def mbuf_init_def MBUF_SIZE_def)
  let ?xs = "[1, 2, 3, 4, 5, 6, 7, 8, 9, 10, 11, 12, 13, 14, 15, 16] :: u8 list"
  let ?P = "pushes ?xs mbuf_init"
  have "mbuf_contents ?P = take 15 (mbuf_contents mbuf_init @ ?xs)"
    using wf by (rule pushes_contents)
  also have "\<dots> = [1, 2, 3, 4, 5, 6, 7, 8, 9, 10, 11, 12, 13, 14, 15]"
    unfolding e by simp
  finally have c: "mbuf_contents ?P = [1, 2, 3, 4, 5, 6, 7, 8, 9, 10, 11, 12, 13, 14, 15]" .
  have n: "mbuf_count ?P = 15"
    unfolding mbuf_count_length [symmetric] c by simp
  have "fst (pulls 16 ?P) = take 16 (mbuf_contents ?P) @ replicate (16 - mbuf_count ?P) 0"
    using pulls_contents [OF pushes_wf [OF wf], of 16 ?xs] by (rule conjunct1)
  also have "\<dots> = [1, 2, 3, 4, 5, 6, 7, 8, 9, 10, 11, 12, 13, 14, 15, 0]"
    unfolding c n by simp
  finally have r: "fst (pulls 16 ?P) = [1, 2, 3, 4, 5, 6, 7, 8, 9, 10, 11, 12, 13, 14, 15, 0]" .
  have "[1, 2, 3, 4, 5, 6, 7, 8, 9, 10, 11, 12, 13, 14, 15, 0]
      \<noteq> ([1, 2, 3, 4, 5, 6, 7, 8, 9, 10, 11, 12, 13, 14, 15, 16] :: u8 list)"
    by simp
  with r show ?thesis by (simp only: simp_thms)
qed

section \<open>A decoded frame reaches the ring buffer\<close>

text \<open>
  C1 (as amended).  From the idle state, a frame with start bit 0, the data byte least
  significant bit first, the odd-parity bit and stop bit 1 makes the receiver hand
  exactly that byte to the ring buffer and leaves \<open>ps2_error\<close> as it was; the
  receiver is idle again afterwards.  If the buffer is not full the byte is appended
  behind the bytes already buffered; if it is full the byte is dropped and the whole
  state is as before.  An inverted start bit, a wrong parity bit and an inverted stop
  bit each make the invocation that samples it store a nonzero code in \<open>ps2_error\<close>
  and return in the idle state, with nothing pushed.  Over the eleven bits of any frame
  corrupted in one of these ways (or several), nothing is pushed and \<open>ps2_error\<close>
  ends nonzero.
\<close>

theorem ps2_ISR_frame:
  assumes idle: "isr_idle s"
  shows "isr_run (frame_bits False b (odd_parity b) True) s = s\<lparr> mbuf := mbuf_push b (mbuf s) \<rparr>
       \<and> ps2_error (isr_run (frame_bits False b (odd_parity b) True) s) = ps2_error s
       \<and> isr_idle (isr_run (frame_bits False b (odd_parity b) True) s)
       \<and> (mbuf_wf (mbuf s) \<and> \<not> mbuf_full (mbuf s) \<longrightarrow>
            mbuf_contents (mbuf (isr_run (frame_bits False b (odd_parity b) True) s))
              = mbuf_contents (mbuf s) @ [b])
       \<and> (mbuf_full (mbuf s) \<longrightarrow> isr_run (frame_bits False b (odd_parity b) True) s = s)
       \<and> ps2_ISR False True s = s\<lparr> ps2_error := START \<rparr>
       \<and> isr_run (take 10 (frame_bits False b (\<not> odd_parity b) stop)) s = s\<lparr> ps2_error := PARITY \<rparr>
       \<and> isr_run (frame_bits False b (odd_parity b) False) s = s\<lparr> ps2_error := STOP \<rparr>
       \<and> START \<noteq> 0 \<and> PARITY \<noteq> 0 \<and> STOP \<noteq> 0
       \<and> (start \<or> par \<noteq> odd_parity b \<or> \<not> stop \<longrightarrow>
            mbuf (isr_run (frame_bits start b par stop) s) = mbuf s
          \<and> ps2_error (isr_run (frame_bits start b par stop) s) \<noteq> 0)"
proof -
  note f = frame_decoding [OF idle, of b stop start par]
  let ?r = "isr_run (frame_bits False b (odd_parity b) True) s"
  from f have v: "?r = s\<lparr> mbuf := mbuf_push b (mbuf s) \<rparr>" by (rule conjunct1)
  have e: "ps2_error ?r = ps2_error s" unfolding v by simp
  have i: "isr_idle ?r" unfolding v using idle by (simp add: isr_idle_def)
  have c: "mbuf_contents (mbuf ?r) = mbuf_contents (mbuf s) @ [b]"
    if "mbuf_wf (mbuf s)" "\<not> mbuf_full (mbuf s)"
    unfolding v using mbuf_push_contents [OF that] by simp
  have d: "?r = s" if "mbuf_full (mbuf s)"
    unfolding v using mbuf_push_full [OF that] by simp
  from f v e i c d show ?thesis by blast
qed

text \<open>
  The byte 0xA5 sent correctly to the boot state and to a state with a full buffer, and
  sent with an inverted start bit.
\<close>

theorem ps2_ISR_frame_witness:
  "isr_idle machine_init \<and> mbuf_wf (mbuf machine_init) \<and> \<not> mbuf_full (mbuf machine_init)
   \<and> mbuf_contents (mbuf machine_init) = []
   \<and> mbuf_contents (mbuf (isr_run (frame_bits False 0xA5 (odd_parity 0xA5) True) machine_init)) = [0xA5]
   \<and> ps2_error (isr_run (frame_bits False 0xA5 (odd_parity 0xA5) True) machine_init) = 0
   \<and> isr_idle (machine_init\<lparr> mbuf := \<lparr> buf = replicate 16 7, head = 15, tail = 0 \<rparr> \<rparr>)
   \<and> mbuf_full (mbuf (machine_init\<lparr> mbuf := \<lparr> buf = replicate 16 7, head = 15, tail = 0 \<rparr> \<rparr>))
   \<and> isr_run (frame_bits False 0xA5 (odd_parity 0xA5) True)
         (machine_init\<lparr> mbuf := \<lparr> buf = replicate 16 7, head = 15, tail = 0 \<rparr> \<rparr>)
       = machine_init\<lparr> mbuf := \<lparr> buf = replicate 16 7, head = 15, tail = 0 \<rparr> \<rparr>
   \<and> mbuf (isr_run (frame_bits True 0xA5 (odd_parity 0xA5) True) machine_init) = mbuf machine_init
   \<and> ps2_error (isr_run (frame_bits True 0xA5 (odd_parity 0xA5) True) machine_init) \<noteq> 0"
proof -
  let ?f = "machine_init\<lparr> mbuf := \<lparr> buf = replicate 16 7, head = 15, tail = 0 \<rparr> \<rparr>"
  have h: "isr_idle machine_init"
    by (simp add: isr_idle_def machine_init_def)
  have w: "mbuf_wf (mbuf machine_init)" "\<not> mbuf_full (mbuf machine_init)"
    by (simp_all add: machine_init_def mbuf_init_def mbuf_wf_def mbuf_full_def MBUF_SIZE_def)
  have e: "mbuf_contents (mbuf machine_init) = []"
    by (simp add: machine_init_def mbuf_init_def mbuf_contents_def mbuf_count_def MBUF_SIZE_def)
  have p: "ps2_error machine_init = 0" by (simp add: machine_init_def)
  have hf: "isr_idle ?f"
    by (simp add: isr_idle_def machine_init_def)
  have ff: "mbuf_full (mbuf ?f)"
    by (simp add: mbuf_full_def MBUF_SIZE_def)
  note t = ps2_ISR_frame [OF h, where b = "0xA5" and start = True and par = "odd_parity 0xA5"
      and stop = True]
  note u = ps2_ISR_frame [OF hf, where b = "0xA5" and start = True and par = "odd_parity 0xA5"
      and stop = True]
  from t w have "mbuf_contents (mbuf (isr_run (frame_bits False 0xA5 (odd_parity 0xA5) True) machine_init))
      = mbuf_contents (mbuf machine_init) @ [0xA5]"
    by blast
  then have 1: "mbuf_contents (mbuf (isr_run (frame_bits False 0xA5 (odd_parity 0xA5) True) machine_init)) = [0xA5]"
    unfolding e by (simp only: append_Nil)
  from t have 2: "ps2_error (isr_run (frame_bits False 0xA5 (odd_parity 0xA5) True) machine_init) = 0"
    unfolding p by blast
  from u ff have 3: "isr_run (frame_bits False 0xA5 (odd_parity 0xA5) True) ?f = ?f" by blast
  from t have 4: "mbuf (isr_run (frame_bits True 0xA5 (odd_parity 0xA5) True) machine_init) = mbuf machine_init"
    and 5: "ps2_error (isr_run (frame_bits True 0xA5 (odd_parity 0xA5) True) machine_init) \<noteq> 0"
    by blast+
  from h w e hf ff 1 2 3 4 5 show ?thesis by blast
qed

text \<open>
  A valid frame while the buffer holds 15 bytes: the state after the frame is the state
  before it, so the byte is not in the buffer and no error is recorded.
\<close>

theorem ps2_ISR_frame_counterexample:
  "isr_idle (machine_init\<lparr> mbuf := \<lparr> buf = replicate 16 7, head = 15, tail = 0 \<rparr> \<rparr>)
   \<and> mbuf_wf \<lparr> buf = replicate 16 7, head = 15, tail = 0 \<rparr>
   \<and> mbuf_contents \<lparr> buf = replicate 16 7, head = 15, tail = 0 \<rparr> = replicate 15 7
   \<and> isr_run (frame_bits False 0xA5 (odd_parity 0xA5) True)
         (machine_init\<lparr> mbuf := \<lparr> buf = replicate 16 7, head = 15, tail = 0 \<rparr> \<rparr>)
       = machine_init\<lparr> mbuf := \<lparr> buf = replicate 16 7, head = 15, tail = 0 \<rparr> \<rparr>
   \<and> (0xA5 :: u8) \<notin> set (replicate 15 7)
   \<and> ps2_error (machine_init\<lparr> mbuf := \<lparr> buf = replicate 16 7, head = 15, tail = 0 \<rparr> \<rparr>) = 0"
proof -
  let ?q = "\<lparr> buf = replicate 16 (7 :: u8), head = 15, tail = 0 \<rparr>"
  let ?f = "machine_init\<lparr> mbuf := ?q \<rparr>"
  have hf: "isr_idle ?f"
    by (simp add: isr_idle_def machine_init_def)
  have wf: "mbuf_wf ?q" by (simp add: mbuf_wf_def MBUF_SIZE_def)
  have ff: "mbuf_full ?q" by (simp add: mbuf_full_def MBUF_SIZE_def)
  have n: "mbuf_count ?q = 15" by (simp add: mbuf_count_def MBUF_SIZE_def)
  have c: "mbuf_contents ?q = replicate 15 7"
    unfolding mbuf_contents_def n
    by (rule nth_equalityI) (simp_all add: MBUF_SIZE_def)
  have r: "isr_run (frame_bits False 0xA5 (odd_parity 0xA5) True) ?f = ?f"
    using frame_valid [OF hf, of "0xA5"] mbuf_push_full [OF ff, of "0xA5"] by simp
  have p: "ps2_error ?f = 0" by (simp add: machine_init_def)
  from hf wf c r p show ?thesis by simp
qed

section \<open>Button mapping and handedness\<close>

lemma and_bit_test:
  fixes w :: u8
  shows "(w AND 0x01 \<noteq> 0) = bit w 0" "(w AND 0x02 \<noteq> 0) = bit w 1"
    "(w AND 0x10 \<noteq> 0) = bit w 4" "(w AND 0x20 \<noteq> 0) = bit w 5"
proof -
  have "(w AND 2 ^ 0 \<noteq> 0) = bit w 0" by (simp only: and_exp_eq_0_iff_not_bit simp_thms)
  then show "(w AND 0x01 \<noteq> 0) = bit w 0" by simp
  have "(w AND 2 ^ 1 \<noteq> 0) = bit w 1" by (simp only: and_exp_eq_0_iff_not_bit simp_thms)
  then show "(w AND 0x02 \<noteq> 0) = bit w 1" by simp
  have "(w AND 2 ^ 4 \<noteq> 0) = bit w 4" by (simp only: and_exp_eq_0_iff_not_bit simp_thms)
  then show "(w AND 0x10 \<noteq> 0) = bit w 4" by simp
  have "(w AND 2 ^ 5 \<noteq> 0) = bit w 5" by (simp only: and_exp_eq_0_iff_not_bit simp_thms)
  then show "(w AND 0x20 \<noteq> 0) = bit w 5" by simp
qed

lemma bit_int_consts:
  "bit (2 :: int) n = (n = 1)" "bit (4 :: int) n = (n = 2)"
  "bit (16 :: int) n = (n = 4)" "bit (7 :: int) n = (n < 3)"
  "bit (232 :: int) n = (n = 3 \<or> n = 5 \<or> n = 6 \<or> n = 7)"
proof -
  have "bit (2 ^ 1 :: int) n = (n = 1)" by (simp only: bit_exp_iff) auto
  then show "bit (2 :: int) n = (n = 1)" by simp
  have "bit (2 ^ 2 :: int) n = (n = 2)" by (simp only: bit_exp_iff) auto
  then show "bit (4 :: int) n = (n = 2)" by simp
  have "bit (2 ^ 4 :: int) n = (n = 4)" by (simp only: bit_exp_iff) auto
  then show "bit (16 :: int) n = (n = 4)" by simp
  have "bit (mask 3 :: int) n = (n < 3)" by (simp only: bit_mask_iff) auto
  then show "bit (7 :: int) n = (n < 3)" by (simp add: mask_eq_exp_minus_1)
  have "bit (2 ^ 3 OR 2 ^ 5 OR 2 ^ 6 OR 2 ^ 7 :: int) n = (n = 3 \<or> n = 5 \<or> n = 6 \<or> n = 7)"
    by (simp only: bit_or_iff bit_exp_iff) auto
  then show "bit (232 :: int) n = (n = 3 \<or> n = 5 \<or> n = 6 \<or> n = 7)" by simp
qed


lemma bit_if_const:
  "bit (if c then (1 :: u8) else 0) n = (c \<and> n = 0)"
  "bit (if c then (2 :: u8) else 0) n = (c \<and> n = 1)"
  "bit (if c then (4 :: u8) else 0) n = (c \<and> n = 2)"
  "bit (if c then (16 :: u8) else 0) n = (c \<and> n = 4)"
  by (cases c; auto simp add: bit_int_consts bit_1_iff)+

lemma map_buttons_right_alt:
  "map_buttons False mstat xtra =
     ((mstat AND 7) OR (if bit xtra 5 then 4 else 0)) OR (if bit xtra 4 then 16 else 0)"
  by (simp add: map_buttons_def Let_def and_bit_test)

lemma map_buttons_left_alt:
  "map_buttons True mstat xtra =
     (if bit mstat 0 then 2 else 0) OR (if bit mstat 1 then 1 else 0)
       OR (if bit xtra 4 then 4 else 0) OR (if bit xtra 5 then 16 else 0)"
  by (simp add: map_buttons_def Let_def and_bit_test)

lemma bit_map_buttons_right:
  "bit (map_buttons False mstat xtra) n \<longleftrightarrow>
     n = 0 \<and> bit mstat 0 \<or> n = 1 \<and> bit mstat 1
     \<or> n = 2 \<and> (bit mstat 2 \<or> bit xtra 5) \<or> n = 4 \<and> bit xtra 4"
proof -
  have "n < 3 \<longleftrightarrow> n = 0 \<or> n = 1 \<or> n = 2" by auto
  then show ?thesis
    unfolding map_buttons_right_alt bit_or_iff bit_if_const bit_and_iff
    by (auto simp add: bit_int_consts)
qed

lemma bit_map_buttons_left:
  "bit (map_buttons True mstat xtra) n \<longleftrightarrow>
     n = 0 \<and> bit mstat 1 \<or> n = 1 \<and> bit mstat 0
     \<or> n = 2 \<and> bit xtra 4 \<or> n = 4 \<and> bit xtra 5"
  unfolding map_buttons_left_alt bit_or_iff bit_if_const
  by auto

lemma bit_exchange_buttons:
  "bit (exchange_buttons v) n \<longleftrightarrow>
     (if n = 0 then bit v 1 else if n = 1 then bit v 0
      else if n = 2 then bit v 4 else if n = 4 then bit v 2 else bit v n)"
  unfolding exchange_buttons_def bit_or_iff bit_if_const bit_and_iff
  by (auto simp add: bit_int_consts dest: bit_imp_le_length)


lemma and_4_test: "((w :: u8) AND 0x04 = 0) = (\<not> bit w 2)"
proof -
  have "(w AND 2 ^ 2 = 0) = (\<not> bit w 2)" by (simp only: and_exp_eq_0_iff_not_bit)
  then show ?thesis by simp
qed

lemma exchange_buttons_twice: "exchange_buttons (exchange_buttons v) = v"
  by (rule bit_eqI) (simp add: bit_exchange_buttons)

text \<open>
  C5 (as amended).  For all raw inputs whose primary middle bit (0x04 of the status
  byte) is clear, the mapping with the handedness swap equals the mapping without it
  followed by exchanging the left and right bits and the middle and scroll-role bits.
  Exchanging twice gives back any mapped button set, swapped or not.
\<close>

theorem map_buttons_swap:
  "(mstat AND 0x04 = 0 \<longrightarrow>
      map_buttons True mstat xtra = exchange_buttons (map_buttons False mstat xtra))
   \<and> exchange_buttons (exchange_buttons (map_buttons lh mstat xtra)) = map_buttons lh mstat xtra"
proof -
  have "map_buttons True mstat xtra = exchange_buttons (map_buttons False mstat xtra)"
    if "\<not> bit mstat 2"
  proof (rule bit_eqI)
    fix n
    show "bit (map_buttons True mstat xtra) n = bit (exchange_buttons (map_buttons False mstat xtra)) n"
      using that by (auto simp add: bit_exchange_buttons bit_map_buttons_left bit_map_buttons_right)
  qed
  then show ?thesis
    by (simp add: and_4_test exchange_buttons_twice)
qed

text \<open>Left and right both down with the first auxiliary button.\<close>

theorem map_buttons_swap_witness:
  "(0x03 :: u8) AND 0x04 = 0
   \<and> map_buttons True 0x03 0x10 = exchange_buttons (map_buttons False 0x03 0x10)
   \<and> map_buttons False 0x03 0x10 = 0x13
   \<and> map_buttons True 0x03 0x10 = 0x07"
proof -
  have h: "(0x03 :: u8) AND 0x04 = 0" by simp
  have v: "map_buttons False 0x03 0x10 = 0x13" "map_buttons True 0x03 0x10 = 0x07"
    by (simp_all add: map_buttons_def)
  from map_buttons_swap [of "0x03" "0x10"] h v show ?thesis by simp
qed

text \<open>
  The primary middle button alone: unswapped it maps to middle, which the exchange turns
  into scroll-role, but the swapped mapping yields no button at all.
\<close>

theorem map_buttons_swap_counterexample:
  "map_buttons False 0x04 0x00 = 0x04
   \<and> exchange_buttons (map_buttons False 0x04 0x00) = 0x10
   \<and> map_buttons True 0x04 0x00 = 0x00"
  by (simp add: map_buttons_def exchange_buttons_def)

section \<open>Handling one report\<close>

lemma sint_i8_range: "- 128 \<le> sint (w :: i8) \<and> sint w < 128"
  using sint_ge [of w] sint_lt [of w] by simp

lemma sint_of_int_i8: "- 128 \<le> k \<Longrightarrow> k < 128 \<Longrightarrow> sint (word_of_int k :: i8) = k"
  by (simp add: sint_sbintrunc' signed_take_bit_int_eq_self)

lemma sint_add_i8:
  "- 128 \<le> sint a + sint b \<Longrightarrow> sint a + sint b < 128 \<Longrightarrow> sint (a + b :: i8) = sint a + sint b"
proof -
  assume r: "- 128 \<le> sint a + sint b" "sint a + sint b < 128"
  have "a + b = word_of_int (sint a + sint b)" by simp
  then have "sint (a + b) = sint (word_of_int (sint a + sint b) :: i8)" by simp
  also have "\<dots> = sint a + sint b" using r by (rule sint_of_int_i8)
  finally show ?thesis .
qed

lemma sint_neg_i8: "sint (w :: i8) \<noteq> - 128 \<Longrightarrow> sint (- w) = - sint w"
proof -
  assume n: "sint w \<noteq> - 128"
  have "- w = word_of_int (- sint w)" by simp
  then have "sint (- w) = sint (word_of_int (- sint w) :: i8)" by simp
  also have "\<dots> = - sint w"
    using n sint_i8_range [of w] by (intro sint_of_int_i8) simp_all
  finally show ?thesis .
qed

lemma sint_min_i8: "sint (w :: i8) = - 128 \<longleftrightarrow> w = 0x80"
proof
  assume "sint w = - 128"
  then have "sint w = sint (0x80 :: i8)" by simp
  then show "w = 0x80" by (rule signed_word_eqI)
qed simp

lemma sdiv8_range: "- 128 \<le> k \<Longrightarrow> k < 128 \<Longrightarrow> - 16 \<le> k sdiv 8 \<and> k sdiv 8 \<le> 15" for k :: int
  by (auto simp add: signed_divide_int_def sgn_if)

lemma sdiv8_zero: "k sdiv 8 = 0 \<longleftrightarrow> - 8 < k \<and> k < 8" for k :: int
  by (auto simp add: signed_divide_int_def sgn_if)


lemma sint_div8: "sint (div8 v) = sint v sdiv 8"
  unfolding div8_def
  using sdiv8_range [of "sint v"] sint_i8_range [of v]
  by (intro sint_of_int_i8) simp_all

lemma div8_zero: "div8 v = 0 \<longleftrightarrow> sint v sdiv 8 = 0"
proof -
  have "div8 v = 0 \<longleftrightarrow> sint (div8 v) = sint (0 :: i8)"
    by (auto intro: signed_word_eqI)
  then show ?thesis by (simp add: sint_div8)
qed


lemma handle_buttons_keeps:
  "handle_buttons is btn s = (s', evs) \<Longrightarrow>
     s' = s\<lparr> buttons := buttons s' \<rparr> \<and> filter is_Move evs = []"
proof (induction "is" arbitrary: s s' evs)
  case Nil
  then show ?case by simp
next
  case (Cons i "is")
  show ?case
  proof (cases "internal_scrolling s \<and> i = 3")
    case True
    with Cons.prems have "handle_buttons is btn s = (s', evs)" by simp
    then show ?thesis by (rule Cons.IH)
  next
    case False
    let ?button = "btn AND bimask ! i \<noteq> 0"
    let ?s1 = "s\<lparr> buttons := (buttons s)[i := ?button] \<rparr>"
    obtain s2 ev2 where r: "handle_buttons is btn ?s1 = (s2, ev2)"
      by (cases "handle_buttons is btn ?s1")
    from Cons.IH [OF r] have k: "s2 = ?s1\<lparr> buttons := buttons s2 \<rparr>" and m: "filter is_Move ev2 = []"
      by simp_all
    from Cons.prems False r have s': "s' = s2"
      and evs: "evs = (if \<not> buttons s ! i \<and> ?button then [Press (bomask ! i)]
                   else if buttons s ! i \<and> \<not> ?button then [Release (bomask ! i)]
                   else []) @ ev2"
      by (simp_all add: Let_def)
    have "s' = s\<lparr> buttons := buttons s' \<rparr>"
      unfolding s' by (subst k) simp
    moreover have "filter is_Move evs = []"
      unfolding evs using m by simp
    ultimately show ?thesis by simp
  qed
qed

lemma no_overflow_no_tag:
  assumes "mstat AND 0xC0 = (0 :: u8)"
  shows "mstat AND 0x48 \<noteq> 0x48"
proof
  assume e: "mstat AND 0x48 = 0x48"
  have "bit (mstat AND 0x48) 6" unfolding e by simp
  then have "bit mstat 6" by (simp add: bit_and_iff)
  then have "bit (mstat AND 0xC0) 6" by (simp add: bit_and_iff)
  with assms show False by simp
qed

lemma loop_report_motion:
  assumes "\<not> susp" "mstat AND 0xC0 = 0"
  shows "loop_report susp now mstat mx my s = (True, process_motion now mstat mx my s)"
  using assms no_overflow_no_tag [OF assms(2)]
  by (simp add: loop_report_def ps2pp_decode_def split: prod.splits)

lemma process_motion_scroll:
  assumes "internal_scrolling s" "map_buttons (lefthanded s) mstat (xtrabutton s) AND 0x10 \<noteq> 0"
    and "process_motion now mstat mx my s = (s', evs)"
  shows "s' = (fst (scroll_branch now my s))\<lparr> buttons := buttons s' \<rparr>
       \<and> filter is_Move evs = filter is_Move (snd (scroll_branch now my s))"
proof -
  obtain s1 ev1 where sb: "scroll_branch now my s = (s1, ev1)" by (cases "scroll_branch now my s")
  obtain s2 ev2 where hb: "handle_buttons [0..<4] (map_buttons (lefthanded s) mstat (xtrabutton s)) s1 = (s2, ev2)"
    by (cases "handle_buttons [0..<4] (map_buttons (lefthanded s) mstat (xtrabutton s)) s1")
  from assms sb hb have "s' = s2" "evs = ev1 @ ev2"
    by (simp_all add: process_motion_def Let_def bimask_def)
  with handle_buttons_keeps [OF hb] sb show ?thesis by simp
qed

lemma process_motion_move:
  assumes "\<not> (internal_scrolling s \<and> map_buttons (lefthanded s) mstat (xtrabutton s) AND 0x10 \<noteq> 0)"
    and "process_motion now mstat mx my s = (s', evs)"
  shows "s' = (fst (move_branch now mx my s))\<lparr> buttons := buttons s' \<rparr>
       \<and> filter is_Move evs = filter is_Move (snd (move_branch now mx my s))"
proof -
  obtain s1 ev1 where sb: "move_branch now mx my s = (s1, ev1)" by (cases "move_branch now mx my s")
  obtain s2 ev2 where hb: "handle_buttons [0..<4] (map_buttons (lefthanded s) mstat (xtrabutton s)) s1 = (s2, ev2)"
    by (cases "handle_buttons [0..<4] (map_buttons (lefthanded s) mstat (xtrabutton s)) s1")
  from assms sb hb have "s' = s2" "evs = ev1 @ ev2"
    by (auto simp add: process_motion_def Let_def bimask_def)
  with handle_buttons_keeps [OF hb] sb show ?thesis by simp
qed


lemma scroll_branch_frame:
  "fst (scroll_branch now my s) =
     s\<lparr> scroll_sum := scroll_sum (fst (scroll_branch now my s)),
        jiggletimer := jiggletimer (fst (scroll_branch now my s)) \<rparr>"
  by (simp add: scroll_branch_def move_def Let_def)

lemma move_branch_frame:
  "fst (move_branch now mx my s) =
     s\<lparr> scroll_sum := scroll_sum (fst (move_branch now mx my s)),
        jiggletimer := jiggletimer (fst (move_branch now mx my s)) \<rparr>"
  by (simp add: move_branch_def move_def)

lemma process_motion_xtrabutton:
  "xtrabutton (fst (process_motion now mstat mx my s)) = xtrabutton s
   \<and> lefthanded (fst (process_motion now mstat mx my s)) = lefthanded s
   \<and> internal_scrolling (fst (process_motion now mstat mx my s)) = internal_scrolling s"
proof -
  obtain s' evs where pm: "process_motion now mstat mx my s = (s', evs)"
    by (cases "process_motion now mstat mx my s")
  show ?thesis
  proof (cases "internal_scrolling s \<and> map_buttons (lefthanded s) mstat (xtrabutton s) AND 0x10 \<noteq> 0")
    case True
    then have "s' = (fst (scroll_branch now my s))\<lparr> buttons := buttons s' \<rparr>"
      using process_motion_scroll [OF _ _ pm] by simp
    then have "xtrabutton s' = xtrabutton (fst (scroll_branch now my s))"
      "lefthanded s' = lefthanded (fst (scroll_branch now my s))"
      "internal_scrolling s' = internal_scrolling (fst (scroll_branch now my s))"
      by (metis machine.select_convs machine.surjective machine.update_convs)+
    then show ?thesis
      by (simp add: pm) (subst scroll_branch_frame, simp)+
  next
    case False
    then have "s' = (fst (move_branch now mx my s))\<lparr> buttons := buttons s' \<rparr>"
      using process_motion_move [OF _ pm] by simp
    then have "xtrabutton s' = xtrabutton (fst (move_branch now mx my s))"
      "lefthanded s' = lefthanded (fst (move_branch now mx my s))"
      "internal_scrolling s' = internal_scrolling (fst (move_branch now mx my s))"
      by (metis machine.select_convs machine.surjective machine.update_convs)+
    then show ?thesis
      by (simp add: pm) (subst move_branch_frame, simp)+
  qed
qed


text \<open>
  C6 (as amended).  A report whose first two bytes carry the extended-protocol tag
  (\<open>b0 AND 0x48 = 0x48\<close> and \<open>b1 AND 0x02 = 0x02\<close>) makes the decoder return
  true and \<open>loop\<close> return at once with no event; with the auxiliary-button subtype
  (\<open>b0 AND 0x30 = 0\<close> and \<open>b1 AND 0xf0 = 0xd0\<close>) exactly \<open>b2 AND 0x30\<close> becomes
  the stored auxiliary state, otherwise the state is untouched.  A report without the tag
  makes the decoder return false with the state untouched, keeps the stored auxiliary
  state through the whole iteration, and, when the host is not suspended and the
  overflow bits 0xC0 of the status byte are clear, is handed to the ordinary motion
  processing.  While the host is suspended such a report is dropped with no event and
  no change of state; with an overflow bit set it is dropped with no event and the
  status byte is stored in \<open>ps2_error\<close>.
\<close>

theorem ps2pp_decode_report:
  "(b0 AND 0x48 = 0x48 \<and> b1 AND 0x02 = 0x02 \<longrightarrow>
      fst (ps2pp_decode b0 b1 b2 s)
      \<and> loop_report susp now b0 b1 b2 s = (False, snd (ps2pp_decode b0 b1 b2 s), [])
      \<and> (b0 AND 0x30 = 0 \<and> b1 AND 0xf0 = 0xd0 \<longrightarrow>
            snd (ps2pp_decode b0 b1 b2 s) = s\<lparr> xtrabutton := b2 AND 0x30 \<rparr>)
      \<and> (\<not> (b0 AND 0x30 = 0 \<and> b1 AND 0xf0 = 0xd0) \<longrightarrow> snd (ps2pp_decode b0 b1 b2 s) = s))
   \<and> (\<not> (b0 AND 0x48 = 0x48 \<and> b1 AND 0x02 = 0x02) \<longrightarrow>
      ps2pp_decode b0 b1 b2 s = (False, s)
      \<and> xtrabutton (fst (snd (loop_report susp now b0 b1 b2 s))) = xtrabutton s
      \<and> (\<not> susp \<and> b0 AND 0xC0 = 0 \<longrightarrow>
            loop_report susp now b0 b1 b2 s = (True, process_motion now b0 b1 b2 s))
      \<and> (susp \<longrightarrow> loop_report susp now b0 b1 b2 s = (False, s, []))
      \<and> (\<not> susp \<and> b0 AND 0xC0 \<noteq> 0 \<longrightarrow>
            loop_report susp now b0 b1 b2 s = (False, s\<lparr> ps2_error := b0 \<rparr>, [])))"
proof -
  have x: "xtrabutton (fst (snd (loop_report susp now b0 b1 b2 s))) = xtrabutton s"
    if "ps2pp_decode b0 b1 b2 s = (False, s)"
    using that process_motion_xtrabutton [of now b0 b1 b2 s]
    by (simp add: loop_report_def split: prod.splits)
  show ?thesis
    using x by (auto simp add: ps2pp_decode_def loop_report_def loop_report_motion)
qed

text \<open>
  An auxiliary-button packet, another extended packet, a plain motion report, the same
  report while suspended, and a report with an overflow bit.
\<close>

theorem ps2pp_decode_report_witness:
  "(0x48 :: u8) AND 0x48 = 0x48 \<and> (0xd2 :: u8) AND 0x02 = 0x02
   \<and> (0x48 :: u8) AND 0x30 = 0 \<and> (0xd2 :: u8) AND 0xf0 = 0xd0
   \<and> loop_report False 0 0x48 0xd2 0x3f machine_init = (False, machine_init\<lparr> xtrabutton := 0x30 \<rparr>, [])
   \<and> \<not> ((0x68 :: u8) AND 0x30 = 0 \<and> (0xd2 :: u8) AND 0xf0 = 0xd0)
   \<and> loop_report False 0 0x68 0xd2 0x3f machine_init = (False, machine_init, [])
   \<and> \<not> ((0x08 :: u8) AND 0x48 = 0x48 \<and> (0x05 :: u8) AND 0x02 = 0x02) \<and> (0x08 :: u8) AND 0xC0 = 0
   \<and> loop_report False 0 0x08 0x05 0x03 machine_init = (True, process_motion 0 0x08 0x05 0x03 machine_init)
   \<and> loop_report True 0 0x08 0x05 0x03 machine_init = (False, machine_init, [])
   \<and> \<not> ((0x80 :: u8) AND 0x48 = 0x48 \<and> (0x05 :: u8) AND 0x02 = 0x02) \<and> (0x80 :: u8) AND 0xC0 \<noteq> 0
   \<and> loop_report False 0 0x80 0x05 0x03 machine_init = (False, machine_init\<lparr> ps2_error := 0x80 \<rparr>, [])"
proof -
  have a: "(0x48 :: u8) AND 0x48 = 0x48 \<and> (0xd2 :: u8) AND 0x02 = 0x02" by simp
  have b: "(0x48 :: u8) AND 0x30 = 0 \<and> (0xd2 :: u8) AND 0xf0 = 0xd0" by simp
  have c: "(0x68 :: u8) AND 0x48 = 0x48 \<and> (0xd2 :: u8) AND 0x02 = 0x02" by simp
  have d: "\<not> ((0x68 :: u8) AND 0x30 = 0 \<and> (0xd2 :: u8) AND 0xf0 = 0xd0)" by simp
  have e: "\<not> ((0x08 :: u8) AND 0x48 = 0x48 \<and> (0x05 :: u8) AND 0x02 = 0x02)" by simp
  have f: "(0x08 :: u8) AND 0xC0 = 0" by simp
  have g: "\<not> ((0x80 :: u8) AND 0x48 = 0x48 \<and> (0x05 :: u8) AND 0x02 = 0x02)" by simp
  have h: "(0x80 :: u8) AND 0xC0 \<noteq> 0" by simp
  have m: "(0x3f :: u8) AND 0x30 = 0x30" by simp
  from ps2pp_decode_report [of "0x48" "0xd2" "0x3f" machine_init False 0] a b
  have 1: "loop_report False 0 0x48 0xd2 0x3f machine_init = (False, machine_init\<lparr> xtrabutton := 0x30 \<rparr>, [])"
    unfolding m by metis
  from ps2pp_decode_report [of "0x68" "0xd2" "0x3f" machine_init False 0] c d
  have 2: "loop_report False 0 0x68 0xd2 0x3f machine_init = (False, machine_init, [])"
    by metis
  from ps2pp_decode_report [of "0x08" "0x05" "0x03" machine_init False 0] e f
  have 3: "loop_report False 0 0x08 0x05 0x03 machine_init = (True, process_motion 0 0x08 0x05 0x03 machine_init)"
    by blast
  from ps2pp_decode_report [of "0x08" "0x05" "0x03" machine_init True 0] e
  have 4: "loop_report True 0 0x08 0x05 0x03 machine_init = (False, machine_init, [])"
    by blast
  from ps2pp_decode_report [of "0x80" "0x05" "0x03" machine_init False 0] g h
  have 5: "loop_report False 0 0x80 0x05 0x03 machine_init = (False, machine_init\<lparr> ps2_error := 0x80 \<rparr>, [])"
    by blast
  from a b d e f g h 1 2 3 4 5 show ?thesis by blast
qed

lemma upt_0_4: "[0..<4] = [0, 1, 2, 3]"
  by (simp add: upt_rec)

text \<open>
  Two reports without the tag that are not processed as motion: one with an overflow
  bit set (dropped, and \<open>ps2_error\<close> set), one arriving while the host is suspended
  (dropped).  Motion processing of the same bytes would have sent a move.
\<close>

theorem ps2pp_decode_report_counterexample:
  "\<not> ((0x80 :: u8) AND 0x48 = 0x48 \<and> (0x01 :: u8) AND 0x02 = 0x02)
   \<and> loop_report False 0 0x80 0x01 0x01 machine_init = (False, machine_init\<lparr> ps2_error := 0x80 \<rparr>, [])
   \<and> \<not> ((0x08 :: u8) AND 0x48 = 0x48 \<and> (0x01 :: u8) AND 0x02 = 0x02)
   \<and> loop_report True 0 0x08 0x01 0x01 machine_init = (False, machine_init, [])
   \<and> snd (process_motion 0 0x08 0x01 0x01 machine_init) = [Move 0x01 (- 0x01) 0]"
  by (simp add: loop_report_def ps2pp_decode_def process_motion_def map_buttons_def
      move_branch_def move_def bimask_def bomask_def machine_init_def upt_0_4 Let_def)


lemma scroll_branch_cases:
  assumes r: "- 8 < sint (scroll_sum s)" "sint (scroll_sum s) < 8"
    and p: "p = sint my sdiv 8" and a: "a = sint (scroll_sum s) + sint my" and t: "t = a sdiv 8"
  shows "snd (scroll_branch now my s) =
           (if p \<noteq> 0 then [Move 0 0 (word_of_int p)]
            else if t \<noteq> 0 then [Move 0 0 (word_of_int t)] else [])"
    and "sint (scroll_sum (fst (scroll_branch now my s))) = (if p \<noteq> 0 \<or> t \<noteq> 0 then 0 else a)"
    and "sint (word_of_int p :: i8) = p"
    and "p = 0 \<Longrightarrow> sint (word_of_int t :: i8) = t"
    and "p = 0 \<Longrightarrow> sint (scroll_sum s + my) = a"
proof -
  have dp: "div8 my = word_of_int p" by (simp add: div8_def p)
  show sp: "sint (word_of_int p :: i8) = p"
    using sint_div8 [of my] by (simp add: dp p)
  have z: "div8 my = 0 \<longleftrightarrow> p = 0" by (simp add: div8_zero p)
  have sum: "sint (scroll_sum s + my) = a" if "p = 0"
  proof -
    from that have "- 8 < sint my \<and> sint my < 8" by (simp add: p sdiv8_zero)
    with r show ?thesis unfolding a by (intro sint_add_i8) simp_all
  qed
  then show "p = 0 \<Longrightarrow> sint (scroll_sum s + my) = a" .
  have dt: "div8 (scroll_sum s + my) = word_of_int t" if "p = 0"
    using sum [OF that] by (simp add: div8_def t)
  show st: "sint (word_of_int t :: i8) = t" if "p = 0"
    using sint_div8 [of "scroll_sum s + my"] sum [OF that] dt [OF that] by (simp add: t)
  have zt: "div8 (scroll_sum s + my) = 0 \<longleftrightarrow> t = 0" if "p = 0"
    using sum [OF that] by (simp add: div8_zero t)
  show "snd (scroll_branch now my s) =
           (if p \<noteq> 0 then [Move 0 0 (word_of_int p)]
            else if t \<noteq> 0 then [Move 0 0 (word_of_int t)] else [])"
    using z zt dt dp by (auto simp add: scroll_branch_def move_def Let_def)
  show "sint (scroll_sum (fst (scroll_branch now my s))) = (if p \<noteq> 0 \<or> t \<noteq> 0 then 0 else a)"
    using z zt sum by (auto simp add: scroll_branch_def move_def Let_def)
qed

lemma loop_report_scroll:
  assumes "scroll_report s (False, now, mstat, mx, my)"
  shows "fst (loop_report False now mstat mx my s)"
    and "filter is_Move (snd (snd (loop_report False now mstat mx my s)))
           = filter is_Move (snd (scroll_branch now my s))"
    and "scroll_sum (fst (snd (loop_report False now mstat mx my s)))
           = scroll_sum (fst (scroll_branch now my s))"
proof -
  from assms have ov: "mstat AND 0xC0 = 0" and sc: "internal_scrolling s"
    and red: "map_buttons (lefthanded s) mstat (xtrabutton s) AND 0x10 \<noteq> 0"
    by (simp_all add: scroll_report_def)
  obtain s' evs where pm: "process_motion now mstat mx my s = (s', evs)"
    by (cases "process_motion now mstat mx my s")
  have lr: "loop_report False now mstat mx my s = (True, s', evs)"
    using loop_report_motion [OF _ ov, of False now mx my s] pm by simp
  from process_motion_scroll [OF sc red pm]
  have k: "s' = (fst (scroll_branch now my s))\<lparr> buttons := buttons s' \<rparr>"
    and m: "filter is_Move evs = filter is_Move (snd (scroll_branch now my s))"
    by simp_all
  from k have "scroll_sum s' = scroll_sum (fst (scroll_branch now my s))"
    by (metis machine.select_convs machine.surjective machine.update_convs)
  with lr m show "fst (loop_report False now mstat mx my s)"
    and "filter is_Move (snd (snd (loop_report False now mstat mx my s)))
           = filter is_Move (snd (scroll_branch now my s))"
    and "scroll_sum (fst (snd (loop_report False now mstat mx my s)))
           = scroll_sum (fst (scroll_branch now my s))"
    by simp_all
qed

text \<open>
  C8 (as amended).  For a motion report handled while the scroll-role button is held and
  scrolling is internal, with the accumulator in its resting range (zero in particular),
  the scroll emulator works on the raw delta-Y of the report, not on its negation: the
  primary tick \<open>p\<close> is delta-Y divided by 8, truncated toward zero, and fits the
  8-bit result; when \<open>p\<close> is zero, delta-Y is added into the accumulator and the tick
  \<open>t\<close> is the accumulator divided by 8.  A nonzero tick is sent as the wheel amount
  of one move with no displacement and clears the accumulator; otherwise nothing is sent
  and the accumulator keeps the sum.
\<close>

theorem scroll_emulator_tick:
  assumes "scroll_report s (False, now, mstat, mx, my)"
    and "- 8 < sint (scroll_sum s)" "sint (scroll_sum s) < 8"
    and "p = sint my sdiv 8" and "a = sint (scroll_sum s) + sint my" and "t = a sdiv 8"
  shows "filter is_Move (snd (snd (loop_report False now mstat mx my s))) =
           (if p \<noteq> 0 then [Move 0 0 (word_of_int p)]
            else if t \<noteq> 0 then [Move 0 0 (word_of_int t)] else [])
       \<and> sint (scroll_sum (fst (snd (loop_report False now mstat mx my s)))) =
           (if p \<noteq> 0 \<or> t \<noteq> 0 then 0 else a)
       \<and> sint (word_of_int p :: i8) = p
       \<and> (p = 0 \<longrightarrow> sint (word_of_int t :: i8) = t)"
proof -
  note c = scroll_branch_cases [OF assms(2-6)]
  have "filter is_Move (snd (scroll_branch now my s)) = snd (scroll_branch now my s)"
    unfolding c(1) by simp
  then show ?thesis
    using loop_report_scroll(2,3) [OF assms(1)] c by simp
qed


lemma scroll_report_example:
  "scroll_report (machine_init\<lparr> xtrabutton := 0x10 \<rparr>) (False, now, 0x08, mx, my)"
  by (simp add: scroll_report_def machine_init_def map_buttons_def)

text \<open>Red button held, accumulator zero: delta-Y 20 gives a tick of 2, delta-Y 6 is kept.\<close>

theorem scroll_emulator_tick_witness:
  "scroll_report (machine_init\<lparr> xtrabutton := 0x10 \<rparr>) (False, 0, 0x08, 0, 20)
   \<and> sint (scroll_sum (machine_init\<lparr> xtrabutton := 0x10 \<rparr>)) = 0
   \<and> sint (20 :: i8) sdiv 8 = 2
   \<and> filter is_Move (snd (snd (loop_report False 0 0x08 0 20 (machine_init\<lparr> xtrabutton := 0x10 \<rparr>))))
       = [Move 0 0 2]
   \<and> scroll_report (machine_init\<lparr> xtrabutton := 0x10 \<rparr>) (False, 0, 0x08, 0, 6)
   \<and> sint (6 :: i8) sdiv 8 = 0
   \<and> filter is_Move (snd (snd (loop_report False 0 0x08 0 6 (machine_init\<lparr> xtrabutton := 0x10 \<rparr>))))
       = []
   \<and> sint (scroll_sum (fst (snd (loop_report False 0 0x08 0 6 (machine_init\<lparr> xtrabutton := 0x10 \<rparr>)))))
       = 6"
proof -
  let ?s = "machine_init\<lparr> xtrabutton := 0x10 \<rparr>"
  have z: "sint (scroll_sum ?s) = 0" by (simp add: machine_init_def)
  have r: "- 8 < sint (scroll_sum ?s)" "sint (scroll_sum ?s) < 8" by (simp_all add: machine_init_def)
  have p20: "(2 :: int) = sint (20 :: i8) sdiv 8" by (simp add: signed_divide_int_def)
  have a20: "(20 :: int) = sint (scroll_sum ?s) + sint (20 :: i8)" by (simp add: machine_init_def)
  have t20: "(2 :: int) = 20 sdiv 8" by (simp add: signed_divide_int_def)
  have p6: "(0 :: int) = sint (6 :: i8) sdiv 8" by (simp add: signed_divide_int_def)
  have a6: "(6 :: int) = sint (scroll_sum ?s) + sint (6 :: i8)" by (simp add: machine_init_def)
  have t6: "(0 :: int) = 6 sdiv 8" by (simp add: signed_divide_int_def)
  from scroll_emulator_tick [OF scroll_report_example r p20 a20 t20]
  have 1: "filter is_Move (snd (snd (loop_report False 0 0x08 0 20 ?s))) = [Move 0 0 2]"
    by simp
  from scroll_emulator_tick [OF scroll_report_example r p6 a6 t6]
  have 2: "filter is_Move (snd (snd (loop_report False 0 0x08 0 6 ?s))) = []"
    and 3: "sint (scroll_sum (fst (snd (loop_report False 0 0x08 0 6 ?s)))) = 6"
    by simp_all
  from scroll_report_example z p20 [symmetric] p6 [symmetric] 1 2 3 show ?thesis
    by (simp only: simp_thms)
qed

text \<open>
  Delta-Y 8 with a zero accumulator: the wheel amount sent is +1, whereas the negated
  delta-Y divided by 8 is -1.
\<close>

theorem scroll_emulator_tick_counterexample:
  "scroll_report (machine_init\<lparr> xtrabutton := 0x10 \<rparr>) (False, 0, 0x08, 0, 8)
   \<and> scroll_sum (machine_init\<lparr> xtrabutton := 0x10 \<rparr>) = 0
   \<and> filter is_Move (snd (snd (loop_report False 0 0x08 0 8 (machine_init\<lparr> xtrabutton := 0x10 \<rparr>))))
       = [Move 0 0 1]
   \<and> sint (- 8 :: i8) sdiv 8 = - 1
   \<and> (1 :: i8) \<noteq> word_of_int (sint (- 8 :: i8) sdiv 8)"
  by (simp add: scroll_report_def loop_report_def ps2pp_decode_def process_motion_def map_buttons_def
      scroll_branch_def div8_def move_def bimask_def bomask_def machine_init_def upt_0_4 Let_def
      signed_divide_int_def)

text \<open>
  C10.  A motion report outside scroll emulation with some displacement sends one move
  whose vertical amount is the 8-bit negation of delta-Y.  For delta-Y = -128 (0x80) the
  negation wraps to -128, the value itself; for every other delta-Y the amount sent is
  the exact negation.  So the negation is inexact for this input and no other (zero,
  being its own negation, is sent exactly).
\<close>

theorem move_inversion_wraps:
  assumes "\<not> susp" "mstat AND 0xC0 = 0"
    and "\<not> (internal_scrolling s \<and> map_buttons (lefthanded s) mstat (xtrabutton s) AND 0x10 \<noteq> 0)"
    and "mx \<noteq> 0 \<or> my \<noteq> 0"
  shows "filter is_Move (snd (snd (loop_report susp now mstat mx my s))) = [Move mx (- my) 0]
       \<and> (my = 0x80 \<longrightarrow> - my = my \<and> sint (- my) = - 128 \<and> sint my = - 128)
       \<and> (my \<noteq> 0x80 \<longrightarrow> sint (- my) = - sint my)
       \<and> (sint (- my) \<noteq> - sint my \<longleftrightarrow> my = 0x80)"
proof -
  obtain s' evs where pm: "process_motion now mstat mx my s = (s', evs)"
    by (cases "process_motion now mstat mx my s")
  have lr: "loop_report susp now mstat mx my s = (True, s', evs)"
    using loop_report_motion [OF assms(1,2), of now mx my s] pm by simp
  from process_motion_move [OF assms(3) pm]
  have "filter is_Move evs = filter is_Move (snd (move_branch now mx my s))" by simp
  also have "\<dots> = [Move mx (- my) 0]"
    using assms(4) by (auto simp add: move_branch_def move_def)
  finally have ev: "filter is_Move (snd (snd (loop_report susp now mstat mx my s))) = [Move mx (- my) 0]"
    by (simp add: lr)
  have n: "sint (- my) = - sint my" if "my \<noteq> 0x80"
    using that by (intro sint_neg_i8) (simp add: sint_min_i8)
  have w: "- (0x80 :: i8) = 0x80" "sint (0x80 :: i8) = - 128" by simp_all
  from ev n w show ?thesis by auto
qed

text \<open>Delta-Y -128 and delta-Y 127 from the boot state.\<close>

theorem move_inversion_wraps_witness:
  "filter is_Move (snd (snd (loop_report False 0 0x08 0 0x80 machine_init))) = [Move 0 0x80 0]
   \<and> sint (0x80 :: i8) = - 128
   \<and> filter is_Move (snd (snd (loop_report False 0 0x08 0 0x7f machine_init))) = [Move 0 0x81 0]
   \<and> sint (0x7f :: i8) = 127 \<and> sint (0x81 :: i8) = - 127"
proof -
  have a: "\<not> False" "(0x08 :: u8) AND 0xC0 = 0" by simp_all
  have b: "\<not> (internal_scrolling machine_init
      \<and> map_buttons (lefthanded machine_init) 0x08 (xtrabutton machine_init) AND 0x10 \<noteq> 0)"
    by (simp add: machine_init_def map_buttons_def)
  have c: "(0 :: i8) \<noteq> 0 \<or> (0x80 :: i8) \<noteq> 0" "(0 :: i8) \<noteq> 0 \<or> (0x7f :: i8) \<noteq> 0" by simp_all
  from move_inversion_wraps [OF a b c(1), of 0] move_inversion_wraps [OF a b c(2), of 0]
  show ?thesis by simp
qed

section \<open>Scroll emulation over a run of reports\<close>
































section \<open>Reading a byte with a bounded wait\<close>

lemma mouse_ready_wait_nonempty:
  "\<not> mbuf_empty m \<Longrightarrow> mouse_ready_wait n arr m = (arr, m)"
  by (cases n) simp_all

lemma mouse_ready_wait_quiet:
  "mbuf_empty m \<Longrightarrow> \<forall>a\<in>set (take n arr). a = [] \<Longrightarrow> mouse_ready_wait n arr m = (drop n arr, m)"
proof (induction n arbitrary: arr)
  case 0
  then show ?case by simp
next
  case (Suc n)
  show ?case
  proof (cases arr)
    case Nil
    with Suc.IH [of "[]"] Suc.prems(1) show ?thesis by simp
  next
    case (Cons a as)
    with Suc.prems(2) have a: "a = []" and as: "\<forall>a\<in>set (take n as). a = []" by simp_all
    from Suc.IH [OF Suc.prems(1) as] Suc.prems(1) show ?thesis
      by (simp add: Cons a)
  qed
qed

lemma pushes_first:
  assumes "mbuf_wf m" "mbuf_empty m"
  shows "\<not> mbuf_empty (pushes (x # bs) m)"
    and "fst (mbuf_pull (pushes (x # bs) m)) = x"
proof -
  let ?q = "pushes (x # bs) m"
  have wf: "mbuf_wf ?q" using assms(1) by (rule pushes_wf)
  from assms have e: "mbuf_contents m = []"
    by (simp add: mbuf_empty_count mbuf_contents_def)
  have c: "mbuf_contents ?q = x # take 14 bs"
    unfolding pushes_contents [OF assms(1)] e by simp
  then have "mbuf_count ?q \<noteq> 0"
    unfolding mbuf_count_length [symmetric] by simp
  then show ne: "\<not> mbuf_empty ?q"
    using wf by (simp add: mbuf_empty_count)
  from mbuf_pull_contents [OF wf ne] c show "fst (mbuf_pull ?q) = x"
    by simp
qed

lemma mouse_ready_wait_arrival:
  assumes "mbuf_wf m" "mbuf_empty m"
  shows "k < n \<Longrightarrow>
    mouse_ready_wait n (replicate k [] @ (x # bs) # arr) m = (arr, pushes (x # bs) m)"
proof (induction k arbitrary: n)
  case 0
  then obtain n' where n: "n = Suc n'" by (cases n) simp_all
  have "mouse_ready_wait (Suc n') ((x # bs) # arr) m = mouse_ready_wait n' arr (pushes (x # bs) m)"
    using assms(2) by (simp del: pushes.simps)
  also have "\<dots> = (arr, pushes (x # bs) m)"
    using pushes_first(1) [OF assms] by (rule mouse_ready_wait_nonempty)
  finally show ?case by (simp add: n del: pushes.simps)
next
  case (Suc k)
  then obtain n' where n: "n = Suc n'" and k: "k < n'" by (cases n) simp_all
  from Suc.IH [OF k] assms(2) show ?case
    by (simp add: n del: pushes.simps(2))
qed

text \<open>
  C9.  Starting with an empty buffer, if no byte arrives during any of the 200 waits,
  \<open>mouse_read\<close> returns 0 and leaves the buffer as it was.  If a byte \<open>x\<close> arrives
  during one of the waits, \<open>mouse_read\<close> returns \<open>x\<close>; for a received 0x00 that is
  0 as well.  The byte is all the caller gets, so the two cases cannot be told apart.
\<close>

theorem mouse_read_timeout:
  assumes "mbuf_wf m" "mbuf_empty m"
  shows "((\<forall>a\<in>set (take 200 arr). a = []) \<longrightarrow> mouse_read arr m = (0, drop 200 arr, m))
       \<and> (k < 200 \<longrightarrow> fst (mouse_read (replicate k [] @ (x # bs) # arr') m) = x)
       \<and> (k < 200 \<longrightarrow> fst (mouse_read (replicate k [] @ (0 # bs) # arr') m) = 0)"
proof -
  have quiet: "mouse_read arr m = (0, drop 200 arr, m)" if "\<forall>a\<in>set (take 200 arr). a = []"
    using mouse_ready_wait_quiet [OF assms(2) that] assms(2)
    by (simp add: mouse_read_def mouse_ready_def)
  have byte: "fst (mouse_read (replicate k [] @ (y # bs) # arr') m) = y" if "k < 200" for y
    using mouse_ready_wait_arrival [OF assms that, of y bs arr'] pushes_first [OF assms, of y bs]
    by (cases "mbuf_pull (pushes (y # bs) m)")
       (simp add: mouse_read_def mouse_ready_def del: pushes.simps)
  from quiet byte show ?thesis by blast
qed

text \<open>The boot-time buffer: nothing arrives; a 0x00 arrives at once; 0xAA arrives in the third wait.\<close>

theorem mouse_read_timeout_witness:
  "mbuf_wf mbuf_init \<and> mbuf_empty mbuf_init
   \<and> mouse_read [] mbuf_init = (0, [], mbuf_init)
   \<and> fst (mouse_read [[0x00]] mbuf_init) = 0
   \<and> fst (mouse_read [[], [], [0xAA, 0x00]] mbuf_init) = 0xAA"
proof -
  have a: "mbuf_wf mbuf_init" "mbuf_empty mbuf_init"
    by (simp_all add: mbuf_wf_def mbuf_empty_def mbuf_init_def MBUF_SIZE_def)
  have q: "\<forall>a\<in>set (take 200 ([] :: u8 list list)). a = []" by simp
  have k0: "(0 :: nat) < 200" and k2: "(2 :: nat) < 200" by simp_all
  from mouse_read_timeout [OF a, of "[]"] q
  have 1: "mouse_read [] mbuf_init = (0, [], mbuf_init)" by simp
  from mouse_read_timeout [OF a, where k = 0 and bs = "[]" and arr' = "[]"] k0
  have 2: "fst (mouse_read [[0x00]] mbuf_init) = 0" by simp
  from mouse_read_timeout [OF a, where k = 2 and x = "0xAA" and bs = "[0x00]" and arr' = "[]"] k2
  have 3: "fst (mouse_read [[], [], [0xAA, 0x00]] mbuf_init) = 0xAA"
    by (simp add: numeral_2_eq_2)
  from a 1 2 3 show ?thesis by blast
qed

section \<open>The idle jiggle schedule\<close>

lemma unat_30000: "unat (30000 :: u32) = 30000"
  by simp














end
